theory Spec2Isabelle
  imports Main
begin

section \<open>JavaScript strings\<close>

text \<open>
  A JavaScript string is modelled as a \<^typ>\<open>string\<close> whose characters are the code units
  0..255 (the Latin-1 range). \<open>toLowerCase\<close>, the regular-expression classes \<open>\s\<close>,
  \<open>\d\<close>, \<open>\w\<close> and \<open>trim\<close> are written out for that range.
\<close>

definition isSpace :: "char \<Rightarrow> bool" where
  "isSpace c = (let n = (of_char c :: nat) in (9 \<le> n \<and> n \<le> 13) \<or> n = 32 \<or> n = 160)"

definition isDigit :: "char \<Rightarrow> bool" where
  "isDigit c = (let n = (of_char c :: nat) in 48 \<le> n \<and> n \<le> 57)"

definition isWord :: "char \<Rightarrow> bool" where
  "isWord c = (let n = (of_char c :: nat) in
     (48 \<le> n \<and> n \<le> 57) \<or> (65 \<le> n \<and> n \<le> 90) \<or> n = 95 \<or> (97 \<le> n \<and> n \<le> 122))"

definition toLowerChar :: "char \<Rightarrow> char" where
  "toLowerChar c = (let n = (of_char c :: nat) in
     if (65 \<le> n \<and> n \<le> 90) \<or> (192 \<le> n \<and> n \<le> 222 \<and> n \<noteq> 215)
     then char_of (n + 32) else c)"

definition toLowerCase :: "string \<Rightarrow> string" where
  "toLowerCase s = map toLowerChar s"

text \<open>\<open>String.prototype.trim\<close>: white space is removed from both ends.\<close>

definition trim :: "string \<Rightarrow> string" where
  "trim s = rev (dropWhile isSpace (rev (dropWhile isSpace s)))"

text \<open>\<open>s.startsWith(q)\<close> and \<open>s.includes(q)\<close>: \<open>q\<close> occurs as a contiguous run.\<close>

fun startsWith :: "string \<Rightarrow> string \<Rightarrow> bool" where
  "startsWith s [] = True"
| "startsWith [] (q # qs) = False"
| "startsWith (c # cs) (q # qs) = (c = q \<and> startsWith cs qs)"

fun str_includes :: "string \<Rightarrow> string \<Rightarrow> bool" where
  "str_includes [] q = startsWith [] q"
| "str_includes (c # cs) q = (startsWith (c # cs) q \<or> str_includes cs q)"

section \<open>Filters (filters.js)\<close>

text \<open>
  \<open>activeFilters\<close>. The department \<open>Set\<close> is a list without duplicates in insertion
  order, which is what \<open>Array.from\<close> returns when the state is saved.
\<close>

record filters =
  departments :: "string list"
  yearMin :: int
  yearMax :: int
  searchQuery :: string
  showCyclesOnly :: bool
  showLabels :: bool
  showIsolated :: bool

definition activeFilters_init :: filters where
  "activeFilters_init = \<lparr> departments = [], yearMin = 2000, yearMax = 2025, searchQuery = [],
     showCyclesOnly = False, showLabels = False, showIsolated = True \<rparr>"

definition set_add :: "string \<Rightarrow> string list \<Rightarrow> string list" where
  "set_add x xs = (if x \<in> set xs then xs else xs @ [x])"

definition set_delete :: "string \<Rightarrow> string list \<Rightarrow> string list" where
  "set_delete x xs = filter (\<lambda>y. y \<noteq> x) xs"

text \<open>
  The Cytoscape graph as the filters read and write it: the data fields of a node that
  \<open>applyFilters\<close> reads, and the two classes \<open>hidden\<close> and \<open>dimmed\<close> it sets. A year is
  a number, or absent (\<open>null\<close> for a cache node, \<open>undefined\<close> for a pdf or web node).
\<close>

record cyNode =
  cn_id :: string
  cn_title :: string
  cn_department :: string
  cn_year :: "int option"
  cn_inCycle :: bool
  cn_hidden :: bool
  cn_dimmed :: bool

record cyEdge =
  ce_id :: string
  ce_source :: string
  ce_target :: string
  ce_hidden :: bool
  ce_dimmed :: bool

record cytoscape =
  cy_nodes :: "cyNode list"
  cy_edges :: "cyEdge list"

text \<open>
  \<open>if (year && ...)\<close>: a year passes the JavaScript truth test when it is present and
  not the number 0.
\<close>

definition truthyYear :: "int option \<Rightarrow> bool" where
  "truthyYear y = (case y of None \<Rightarrow> False | Some v \<Rightarrow> v \<noteq> 0)"

text \<open>
  Cytoscape's \<open>node.degree()\<close>: the number of edge ends at the node (a loop counts
  twice), whatever classes the edges carry.
\<close>

definition degree :: "cytoscape \<Rightarrow> cyNode \<Rightarrow> nat" where
  "degree cy n = length (filter (\<lambda>e. ce_source e = cn_id n) (cy_edges cy))
               + length (filter (\<lambda>e. ce_target e = cn_id n) (cy_edges cy))"

text \<open>\<open>edge.source().hasClass('hidden')\<close>: the class of the node with that id.\<close>

definition nodeHasHidden :: "cyNode list \<Rightarrow> string \<Rightarrow> bool" where
  "nodeHasHidden ns i = (case find (\<lambda>n. cn_id n = i) ns of None \<Rightarrow> False | Some n \<Rightarrow> cn_hidden n)"

text \<open>The passes of \<open>applyFilters\<close>, in the order of the source.\<close>

definition removeClasses :: "cytoscape \<Rightarrow> cytoscape" where
  "removeClasses cy = cy\<lparr> cy_nodes := map (\<lambda>n. n\<lparr>cn_hidden := False, cn_dimmed := False\<rparr>) (cy_nodes cy),
                          cy_edges := map (\<lambda>e. e\<lparr>ce_hidden := False, ce_dimmed := False\<rparr>) (cy_edges cy) \<rparr>"

definition filterByDepartment :: "filters \<Rightarrow> cytoscape \<Rightarrow> cytoscape" where
  "filterByDepartment af cy = cy\<lparr> cy_nodes :=
     map (\<lambda>n. if cn_department n \<notin> set (departments af) then n\<lparr>cn_hidden := True\<rparr> else n) (cy_nodes cy) \<rparr>"

definition filterByYear :: "filters \<Rightarrow> cytoscape \<Rightarrow> cytoscape" where
  "filterByYear af cy = cy\<lparr> cy_nodes :=
     map (\<lambda>n. if truthyYear (cn_year n) \<and> (the (cn_year n) < yearMin af \<or> the (cn_year n) > yearMax af)
              then n\<lparr>cn_hidden := True\<rparr> else n) (cy_nodes cy) \<rparr>"

definition matchesSearch :: "filters \<Rightarrow> cyNode \<Rightarrow> bool" where
  "matchesSearch af n = (str_includes (toLowerCase (cn_id n)) (searchQuery af)
                       \<or> str_includes (toLowerCase (cn_title n)) (searchQuery af))"

definition filterBySearch :: "filters \<Rightarrow> cytoscape \<Rightarrow> cytoscape" where
  "filterBySearch af cy = (if searchQuery af \<noteq> [] then cy\<lparr> cy_nodes :=
     map (\<lambda>n. if \<not> matchesSearch af n \<and> \<not> cn_hidden n then n\<lparr>cn_dimmed := True\<rparr> else n) (cy_nodes cy) \<rparr>
     else cy)"

definition filterCyclesOnly :: "filters \<Rightarrow> cytoscape \<Rightarrow> cytoscape" where
  "filterCyclesOnly af cy = (if showCyclesOnly af then cy\<lparr> cy_nodes :=
     map (\<lambda>n. if \<not> cn_inCycle n \<and> \<not> cn_hidden n then n\<lparr>cn_hidden := True\<rparr> else n) (cy_nodes cy) \<rparr>
     else cy)"

definition filterIsolated :: "filters \<Rightarrow> cytoscape \<Rightarrow> cytoscape" where
  "filterIsolated af cy = (if \<not> showIsolated af then cy\<lparr> cy_nodes :=
     map (\<lambda>n. if degree cy n = 0 \<and> \<not> cn_hidden n then n\<lparr>cn_hidden := True\<rparr> else n) (cy_nodes cy) \<rparr>
     else cy)"

definition hideEdges :: "cytoscape \<Rightarrow> cytoscape" where
  "hideEdges cy = cy\<lparr> cy_edges :=
     map (\<lambda>e. if nodeHasHidden (cy_nodes cy) (ce_source e) \<or> nodeHasHidden (cy_nodes cy) (ce_target e)
              then e\<lparr>ce_hidden := True\<rparr> else e) (cy_edges cy) \<rparr>"

definition applyFiltersCy :: "filters \<Rightarrow> cytoscape \<Rightarrow> cytoscape" where
  "applyFiltersCy af cy =
     hideEdges (filterIsolated af (filterCyclesOnly af (filterBySearch af
       (filterByYear af (filterByDepartment af (removeClasses cy))))))"

text \<open>\<open>applyFilters\<close>: nothing happens while \<open>getCytoscape()\<close> is still \<open>null\<close>.\<close>

definition applyFilters :: "filters \<Rightarrow> cytoscape option \<Rightarrow> cytoscape option" where
  "applyFilters af c = (case c of None \<Rightarrow> None | Some cy \<Rightarrow> Some (applyFiltersCy af cy))"

text \<open>
  The persisted record. \<open>localStorage\<close> maps a key to the object that was passed to
  \<open>JSON.stringify\<close>: a list of fields in the order of the object literal.
\<close>

datatype jvalue = JString string | JNumber int | JBool bool | JArray "jvalue list"

type_synonym jobject = "(string \<times> jvalue) list"

record app =
  activeFilters :: filters
  cy_instance :: "cytoscape option"
  localStorage :: "string \<rightharpoonup> jobject"

text \<open>The object \<open>state\<close> that \<open>saveFilterState\<close> builds and writes.\<close>

definition filterStateRecord :: "filters \<Rightarrow> jobject" where
  "filterStateRecord af =
     [(''departments'', JArray (map JString (departments af))),
      (''yearMin'', JNumber (yearMin af)),
      (''yearMax'', JNumber (yearMax af)),
      (''showCyclesOnly'', JBool (showCyclesOnly af)),
      (''showLabels'', JBool (showLabels af)),
      (''showIsolated'', JBool (showIsolated af))]"

definition saveFilterState :: "app \<Rightarrow> app" where
  "saveFilterState a =
     a\<lparr> localStorage := (localStorage a)(''filterState'' \<mapsto> filterStateRecord (activeFilters a)) \<rparr>"

definition runApplyFilters :: "app \<Rightarrow> app" where
  "runApplyFilters a = a\<lparr> cy_instance := applyFilters (activeFilters a) (cy_instance a) \<rparr>"

text \<open>\<open>onDepartmentFilterChange\<close>: the event carries the checkbox's value and state.\<close>

definition onDepartmentFilterChange :: "string \<Rightarrow> bool \<Rightarrow> app \<Rightarrow> app" where
  "onDepartmentFilterChange dept checked a =
     (let af = activeFilters a;
          a1 = a\<lparr> activeFilters := af\<lparr> departments :=
                 (if checked then set_add dept (departments af) else set_delete dept (departments af)) \<rparr> \<rparr>
      in saveFilterState (runApplyFilters a1))"

text \<open>
  \<open>onYearFilterChange\<close>: \<open>targetId\<close> is the id of the slider that moved, \<open>yMin\<close> and
  \<open>yMax\<close> are the two sliders' values after \<open>parseInt\<close>.
\<close>

definition onYearFilterChange :: "string \<Rightarrow> int \<Rightarrow> int \<Rightarrow> app \<Rightarrow> app" where
  "onYearFilterChange targetId yMin yMax a =
     (let af = activeFilters a;
          af1 = (if yMin > yMax then
                   (if targetId = ''year-min'' then af\<lparr> yearMin := yMax \<rparr> else af\<lparr> yearMax := yMin \<rparr>)
                 else af\<lparr> yearMin := yMin, yearMax := yMax \<rparr>)
      in saveFilterState (runApplyFilters (a\<lparr> activeFilters := af1 \<rparr>)))"

definition onSearchInput :: "string \<Rightarrow> app \<Rightarrow> app" where
  "onSearchInput v a =
     runApplyFilters (a\<lparr> activeFilters := (activeFilters a)\<lparr> searchQuery := trim (toLowerCase v) \<rparr> \<rparr>)"

definition clearSearch :: "app \<Rightarrow> app" where
  "clearSearch a = runApplyFilters (a\<lparr> activeFilters := (activeFilters a)\<lparr> searchQuery := [] \<rparr> \<rparr>)"

datatype displayOption = ShowCyclesOnly | ShowLabels | ShowIsolated

definition onDisplayOptionChange :: "displayOption \<Rightarrow> bool \<Rightarrow> app \<Rightarrow> app" where
  "onDisplayOptionChange option checked a =
     (let af = activeFilters a;
          af1 = (case option of
                   ShowCyclesOnly \<Rightarrow> af\<lparr> showCyclesOnly := checked \<rparr>
                 | ShowLabels \<Rightarrow> af\<lparr> showLabels := checked \<rparr>
                 | ShowIsolated \<Rightarrow> af\<lparr> showIsolated := checked \<rparr>)
      in saveFilterState (runApplyFilters (a\<lparr> activeFilters := af1 \<rparr>)))"

text \<open>
  \<open>resetFilters\<close>: \<open>checkboxes\<close> are the values of the department checkboxes in
  document order, \<open>sliderMin\<close> and \<open>sliderMax\<close> are \<open>yearMinSlider.min\<close> and
  \<open>yearMaxSlider.max\<close> after \<open>parseInt\<close>. The last statement removes the persisted
  record.
\<close>

definition resetFilters :: "string list \<Rightarrow> int \<Rightarrow> int \<Rightarrow> app \<Rightarrow> app" where
  "resetFilters checkboxes sliderMin sliderMax a =
     (case cy_instance a of
        None \<Rightarrow> a
      | Some cy \<Rightarrow>
          (let af = activeFilters a;
               af1 = af\<lparr> departments := fold set_add checkboxes (departments af) \<rparr>;
               af2 = af1\<lparr> yearMin := sliderMin, yearMax := sliderMax \<rparr>;
               af3 = af2\<lparr> searchQuery := [] \<rparr>;
               af4 = af3\<lparr> showCyclesOnly := False, showLabels := False, showIsolated := True \<rparr>;
               a1 = runApplyFilters (a\<lparr> activeFilters := af4 \<rparr>)
           in a1\<lparr> localStorage := (localStorage a1)(''filterState'' := None) \<rparr>))"

text \<open>
  \<open>initializeYearFilters\<close>, as far as the filter state goes: the year range becomes
  the range of the years in the graph. Neither \<open>applyFilters\<close> nor
  \<open>saveFilterState\<close> is called.
\<close>

definition initializeYearFilters :: "app \<Rightarrow> app" where
  "initializeYearFilters a =
     (case cy_instance a of
        None \<Rightarrow> a
      | Some cy \<Rightarrow>
          (let minYear0 = fold (\<lambda>n m. case cn_year n of None \<Rightarrow> m
                                      | Some y \<Rightarrow> if y \<noteq> 0 then min m y else m) (cy_nodes cy) 3000;
               maxYear0 = fold (\<lambda>n m. case cn_year n of None \<Rightarrow> m
                                      | Some y \<Rightarrow> if y \<noteq> 0 then max m y else m) (cy_nodes cy) 1000;
               minYear = (if minYear0 = 3000 then 2000 else minYear0);
               maxYear = (if maxYear0 = 1000 then 2025 else maxYear0)
           in a\<lparr> activeFilters := (activeFilters a)\<lparr> yearMin := minYear, yearMax := maxYear \<rparr> \<rparr>))"

section \<open>Data loader helpers (data-loader.js)\<close>

text \<open>\<open>extractYearFromDate\<close>: the first run of four digits, read as a decimal number.\<close>

fun findFourDigits :: "string \<Rightarrow> string option" where
  "findFourDigits (a # b # c # d # rest) =
     (if isDigit a \<and> isDigit b \<and> isDigit c \<and> isDigit d then Some [a, b, c, d]
      else findFourDigits (b # c # d # rest))"
| "findFourDigits s = None"

definition parseInt10 :: "string \<Rightarrow> int" where
  "parseInt10 ds = foldl (\<lambda>acc c. 10 * acc + (int (of_char c) - 48)) 0 ds"

definition extractYearFromDate :: "string \<Rightarrow> int option" where
  "extractYearFromDate dateString =
     (if dateString = [] then None
      else case findFourDigits dateString of None \<Rightarrow> None | Some ds \<Rightarrow> Some (parseInt10 ds))"

text \<open>\<open>extractDepartmentFromId\<close>: the pattern \<open>^([A-Z&]+)\s\<close>.\<close>

definition isDeptChar :: "char \<Rightarrow> bool" where
  "isDeptChar c = (let n = (of_char c :: nat) in (65 \<le> n \<and> n \<le> 90) \<or> n = 38)"

definition extractDepartmentFromId :: "string \<Rightarrow> string" where
  "extractDepartmentFromId circularId =
     (if circularId = [] then ''Other''
      else let dept = takeWhile isDeptChar circularId; rest = dropWhile isDeptChar circularId in
        if dept \<noteq> [] \<and> (case rest of [] \<Rightarrow> False | c # _ \<Rightarrow> isSpace c) then
          (if str_includes dept ''AC'' \<and> str_includes dept ''MFD'' then ''AC&MFD''
           else if dept = ''ACMFD'' then ''AC&MFD''
           else dept)
        else ''Other'')"

text \<open>
  \<open>normalizeTitle\<close>, one function for each \<open>replace\<close>.

  \<open>replace(/\b0+(\d)/g, '$1')\<close>: the flag says whether the character before the
  position is a word character. At a word boundary a run of zeros followed by a digit is
  replaced by that digit; a run of at least two zeros followed by no digit gives up its
  last zero to \<open>\d\<close>; a single zero followed by no digit stays.
\<close>

function stripLeadingZeros :: "bool \<Rightarrow> string \<Rightarrow> string" where
  "stripLeadingZeros prevWord [] = []"
| "stripLeadingZeros prevWord (c # cs) =
     (if c = CHR ''0'' \<and> \<not> prevWord then
        (case dropWhile (\<lambda>x. x = CHR ''0'') cs of
           [] \<Rightarrow> [CHR ''0'']
         | d # r \<Rightarrow> if isDigit d then d # stripLeadingZeros True r
                    else CHR ''0'' # stripLeadingZeros True (d # r))
      else c # stripLeadingZeros (isWord c) cs)"
  by pat_completeness auto
termination
proof (relation "measure (\<lambda>(p, s). length s)")
  show "wf (measure (\<lambda>(p, s). length s))" by simp
next
  fix prevWord :: bool and c :: char and cs x21 x22
  assume "dropWhile (\<lambda>x. x = CHR ''0'') cs = x21 # x22"
  then have "length (x21 # x22) \<le> length cs"
    by (metis length_dropWhile_le)
  then show "((True, x22), (prevWord, c # cs)) \<in> measure (\<lambda>(p, s). length s)" by simp
next
  fix prevWord :: bool and c :: char and cs x21 x22
  assume "dropWhile (\<lambda>x. x = CHR ''0'') cs = x21 # x22"
  then have "length (x21 # x22) \<le> length cs"
    by (metis length_dropWhile_le)
  then show "((True, x21 # x22), (prevWord, c # cs)) \<in> measure (\<lambda>(p, s). length s)" by simp
next
  fix prevWord :: bool and c :: char and cs
  show "((isWord c, cs), (prevWord, c # cs)) \<in> measure (\<lambda>(p, s). length s)" by simp
qed

text \<open>\<open>replace(/no\.\s*/gi, 'no ')\<close>.\<close>

definition isN :: "char \<Rightarrow> bool" where
  "isN c = (c = CHR ''n'' \<or> c = CHR ''N'')"

definition isO :: "char \<Rightarrow> bool" where
  "isO c = (c = CHR ''o'' \<or> c = CHR ''O'')"

function replaceNo :: "string \<Rightarrow> string" where
  "replaceNo (c1 # c2 # c3 # rest) =
     (if isN c1 \<and> isO c2 \<and> c3 = CHR ''.'' then ''no '' @ replaceNo (dropWhile isSpace rest)
      else c1 # replaceNo (c2 # c3 # rest))"
| "replaceNo [] = []"
| "replaceNo [c1] = [c1]"
| "replaceNo [c1, c2] = [c1, c2]"
  by pat_completeness auto
termination
proof (relation "measure length")
  show "wf (measure length)" by simp
next
  fix c1 c2 c3 :: char and rest
  have "length (dropWhile isSpace rest) \<le> length rest" by (rule length_dropWhile_le)
  then show "(dropWhile isSpace rest, c1 # c2 # c3 # rest) \<in> measure length" by simp
next
  fix c1 c2 c3 :: char and rest
  show "(c2 # c3 # rest, c1 # c2 # c3 # rest) \<in> measure length" by simp
qed

text \<open>\<open>replace(/\s+/g, ' ')\<close>.\<close>

function collapseWhitespace :: "string \<Rightarrow> string" where
  "collapseWhitespace [] = []"
| "collapseWhitespace (c # cs) =
     (if isSpace c then CHR '' '' # collapseWhitespace (dropWhile isSpace cs)
      else c # collapseWhitespace cs)"
  by pat_completeness auto
termination
proof (relation "measure length")
  show "wf (measure length)" by simp
next
  fix c :: char and cs
  have "length (dropWhile isSpace cs) \<le> length cs" by (rule length_dropWhile_le)
  then show "(dropWhile isSpace cs, c # cs) \<in> measure length" by simp
next
  fix c :: char and cs :: string
  show "(cs, c # cs) \<in> measure length" by simp
qed

definition normalizeTitle :: "string \<Rightarrow> string" where
  "normalizeTitle title =
     (if title = [] then []
      else trim (collapseWhitespace (replaceNo (stripLeadingZeros False (toLowerCase title)))))"

text \<open>
  \<open>generateNodeId(null, url, title)\<close>; \<open>rnd\<close> is the text that \<open>Math.random()\<close>
  gives for the fallback.
\<close>

definition generateNodeId :: "string \<Rightarrow> string \<Rightarrow> string \<Rightarrow> string \<Rightarrow> string" where
  "generateNodeId i url title rnd =
     (if i \<noteq> [] then i
      else if url \<noteq> [] then ''url_'' @ url
      else if title \<noteq> [] then ''title_'' @ title
      else ''node_'' @ rnd)"

section \<open>Graph builder (graph-builder.js)\<close>

text \<open>
  The input documents. A field that the source reads with \<open>x || ''\<close> is a string, empty
  when the JSON has no such field; a \<open>references\<close> field is \<open>Some\<close> list when it is
  present and an array. \<open>RefNull\<close> is a \<open>null\<close> entry of a references array. The
  entries of \<open>years\<close> and of the cache are listed in the order of \<open>Object.entries\<close>.
\<close>

type_synonym block = string

datatype ref = RefNull
  | Ref (r_type: string) (r_title: string) (r_url: string) (r_references: "ref list option")

record circular =
  c_ID :: string
  c_title :: string
  c_date :: string
  c_url :: string
  c_content :: "block list"
  c_references :: "ref list option"

record yearData =
  circulars :: "circular option list"
  circular_letters :: "circular option list"

record fileData =
  fd_department :: string
  fd_years :: "(string \<times> yearData) list option"

record cacheEntry =
  cc_content :: "block list"
  cc_references :: "ref list option"

record loadedData =
  mainFiles :: "fileData list"
  cache :: "(string \<times> cacheEntry) list option"

text \<open>
  A node of the builder. A pdf or web node is created without \<open>date\<close>, \<open>year\<close> and
  \<open>content\<close>: these fields are \<open>None\<close> there (\<open>undefined\<close>); the year of a cache node
  is \<open>None\<close> too (\<open>null\<close>).
\<close>

record node =
  n_id :: string
  n_label :: string
  n_title :: string
  n_date :: "string option"
  n_year :: "int option"
  n_department :: string
  n_url :: string
  n_content :: "block list option"
  n_type :: string
  n_refCount :: nat
  n_fromCache :: bool

record edge =
  e_source :: string
  e_target :: string
  e_refType :: string
  e_refTitle :: string
  e_refUrl :: string

text \<open>A validated edge carries an id as well.\<close>

record vedge = edge +
  e_id :: string

text \<open>
  The state the extraction functions share: the arrays \<open>nodes\<close> and \<open>edges\<close> of
  \<open>buildGraph\<close>, the global \<open>nodeIdToNormalizedId\<close>, and the number of calls of
  \<open>Math.random()\<close> so far (the \<open>k\<close>-th call gives the text \<open>rnd k\<close>).
\<close>

record bstate =
  b_nodes :: "node list"
  b_edges :: "edge list"
  nodeIdToNormalizedId :: "string \<rightharpoonup> string"
  b_random :: nat

definition orElse :: "string \<Rightarrow> string \<Rightarrow> string" where
  "orElse a b = (if a \<noteq> [] then a else b)"

definition pushNode :: "node \<Rightarrow> bstate \<Rightarrow> bstate" where
  "pushNode n st = st\<lparr> b_nodes := b_nodes st @ [n] \<rparr>"

definition pushEdge :: "edge \<Rightarrow> bstate \<Rightarrow> bstate" where
  "pushEdge e st = st\<lparr> b_edges := b_edges st @ [e] \<rparr>"

text \<open>
  The id of a pdf or web node: \<open>ref.url || `pdf_${ref.title || Math.random()}`\<close>, and
  the state after it (a call of \<open>Math.random()\<close> is counted).
\<close>

definition attachmentId :: "(nat \<Rightarrow> string) \<Rightarrow> string \<Rightarrow> string \<Rightarrow> string \<Rightarrow> bstate \<Rightarrow> string \<times> bstate" where
  "attachmentId rnd prefix url title st =
     (if url \<noteq> [] then (url, st)
      else if title \<noteq> [] then (prefix @ title, st)
      else (prefix @ rnd (b_random st), st\<lparr> b_random := Suc (b_random st) \<rparr>))"

definition attachmentNode :: "string \<Rightarrow> string \<Rightarrow> string \<Rightarrow> string \<Rightarrow> string \<Rightarrow> string \<Rightarrow> node" where
  "attachmentNode i title dflt url ty department =
     \<lparr> n_id = i, n_label = orElse title dflt, n_title = orElse title dflt, n_date = None,
       n_year = None, n_department = department, n_url = url, n_content = None, n_type = ty,
       n_refCount = 0, n_fromCache = False \<rparr>"

fun extractReferences ::
  "(nat \<Rightarrow> string) \<Rightarrow> ref list \<Rightarrow> string \<Rightarrow> string \<Rightarrow> nat \<Rightarrow> bstate \<Rightarrow> bstate" where
  "extractReferences rnd references sourceId department depth st0 =
     (if depth > 10 then st0
      else fold (\<lambda>r st. case r of
          RefNull \<Rightarrow> st
        | Ref ty title url nested \<Rightarrow>
            if ty = ''circular'' then
              (let targetId = normalizeTitle title;
                   st1 = (if targetId \<noteq> [] then
                            pushEdge \<lparr> e_source = sourceId, e_target = targetId, e_refType = ''circular'',
                                       e_refTitle = title, e_refUrl = url \<rparr> st
                          else st)
               in case nested of
                    None \<Rightarrow> st1
                  | Some refs \<Rightarrow> extractReferences rnd refs sourceId department (depth + 1) st1)
            else if ty = ''pdf'' then
              (let (pdfId, st1) = attachmentId rnd ''pdf_'' url title st;
                   st2 = pushNode (attachmentNode pdfId title ''PDF Document'' url ''pdf'' department) st1;
                   st3 = pushEdge \<lparr> e_source = sourceId, e_target = pdfId, e_refType = ''pdf'',
                                    e_refTitle = orElse title ''PDF Document'', e_refUrl = url \<rparr> st2
               in case nested of
                    None \<Rightarrow> st3
                  | Some refs \<Rightarrow> extractReferences rnd refs pdfId department (depth + 1) st3)
            else if ty = ''web'' then
              (let (webId, st1) = attachmentId rnd ''web_'' url title st;
                   st2 = pushNode (attachmentNode webId title ''Web Link'' url ''web'' department) st1
               in pushEdge \<lparr> e_source = sourceId, e_target = webId, e_refType = ''web'',
                             e_refTitle = orElse title ''Web Link'', e_refUrl = url \<rparr> st2)
            else st) references st0)"

definition extractReferencesOpt ::
  "(nat \<Rightarrow> string) \<Rightarrow> ref list option \<Rightarrow> string \<Rightarrow> string \<Rightarrow> bstate \<Rightarrow> bstate" where
  "extractReferencesOpt rnd references sourceId department st =
     (case references of None \<Rightarrow> st | Some refs \<Rightarrow> extractReferences rnd refs sourceId department 0 st)"

definition processCircular :: "(nat \<Rightarrow> string) \<Rightarrow> circular option \<Rightarrow> string \<Rightarrow> bstate \<Rightarrow> bstate" where
  "processCircular rnd circ department st =
     (case circ of
        None \<Rightarrow> st
      | Some c \<Rightarrow>
         (let useRandom = (c_ID c = [] \<and> c_url c = [] \<and> c_title c = []);
              nodeId = (if c_ID c \<noteq> [] then c_ID c
                        else generateNodeId [] (c_url c) (c_title c) (rnd (b_random st)));
              st1 = (if useRandom then st\<lparr> b_random := Suc (b_random st) \<rparr> else st);
              n = \<lparr> n_id = nodeId, n_label = nodeId, n_title = orElse (c_title c) nodeId,
                    n_date = Some (c_date c), n_year = extractYearFromDate (c_date c),
                    n_department = department, n_url = c_url c, n_content = Some (c_content c),
                    n_type = ''circular'', n_refCount = 0, n_fromCache = False \<rparr>;
              st2 = pushNode n st1;
              st3 = st2\<lparr> nodeIdToNormalizedId := (nodeIdToNormalizedId st2)(normalizeTitle nodeId \<mapsto> nodeId) \<rparr>
          in extractReferencesOpt rnd (c_references c) nodeId department st3))"

definition extractCircularsFromMainFile :: "(nat \<Rightarrow> string) \<Rightarrow> fileData \<Rightarrow> bstate \<Rightarrow> bstate" where
  "extractCircularsFromMainFile rnd fd st =
     (case fd_years fd of
        None \<Rightarrow> st
      | Some years \<Rightarrow>
         (let department = orElse (fd_department fd) ''Other'' in
          fold (\<lambda>(year, yd) st1.
                  fold (\<lambda>letter s. processCircular rnd letter department s) (circular_letters yd)
                    (fold (\<lambda>circ s. processCircular rnd circ department s) (circulars yd) st1))
               years st))"

definition extractCircularsFromCache ::
  "(nat \<Rightarrow> string) \<Rightarrow> (string \<times> cacheEntry) list \<Rightarrow> bstate \<Rightarrow> bstate" where
  "extractCircularsFromCache rnd cacheData st =
     fold (\<lambda>(circularId, circularData) st0.
        (let department = extractDepartmentFromId circularId;
             n = \<lparr> n_id = circularId, n_label = circularId, n_title = circularId, n_date = Some [],
                   n_year = None, n_department = department, n_url = [],
                   n_content = Some (cc_content circularData), n_type = ''circular'',
                   n_refCount = 0, n_fromCache = True \<rparr>;
             st1 = pushNode n st0;
             st2 = st1\<lparr> nodeIdToNormalizedId := (nodeIdToNormalizedId st1)(normalizeTitle circularId \<mapsto> circularId) \<rparr>
         in extractReferencesOpt rnd (cc_references circularData) circularId department st2))
       cacheData st"

text \<open>
  \<open>nodeMap\<close> is a JavaScript \<open>Map\<close> from id to node, filled in insertion order and
  later read in that order: it is the list of its values, each stored under its own
  \<open>n_id\<close>. \<open>mapUpdate\<close> changes the node stored under a key in place.
\<close>

definition mapGet :: "node list \<Rightarrow> string \<Rightarrow> node option" where
  "mapGet nodeMap i = find (\<lambda>n. n_id n = i) nodeMap"

definition mapHas :: "node list \<Rightarrow> string \<Rightarrow> bool" where
  "mapHas nodeMap i = (mapGet nodeMap i \<noteq> None)"

fun mapUpdate :: "(node \<Rightarrow> node) \<Rightarrow> string \<Rightarrow> node list \<Rightarrow> node list" where
  "mapUpdate f i [] = []"
| "mapUpdate f i (m # ms) = (if n_id m = i then f m # ms else m # mapUpdate f i ms)"

datatype error = TypeError

definition truthyString :: "string option \<Rightarrow> bool" where
  "truthyString s = (case s of None \<Rightarrow> False | Some v \<Rightarrow> v \<noteq> [])"

text \<open>
  The body of the merge branch of \<open>deduplicateNodes\<close>, statement by statement.
  \<open>existingNode.content.length\<close> throws a \<open>TypeError\<close> when the existing node has no
  \<open>content\<close> field (a pdf or web node) and the incoming node has a non-empty one.
\<close>

definition mergeNode :: "node \<Rightarrow> node \<Rightarrow> error + node" where
  "mergeNode existingNode n =
     (let e1 = (if n_title n \<noteq> [] \<and> n_title existingNode = []
                then existingNode\<lparr> n_title := n_title n \<rparr> else existingNode);
          e2 = (if truthyString (n_date n) \<and> \<not> truthyString (n_date e1)
                then e1\<lparr> n_date := n_date n \<rparr> else e1);
          e3 = (if truthyYear (n_year n) \<and> \<not> truthyYear (n_year e2)
                then e2\<lparr> n_year := n_year n \<rparr> else e2);
          e4 = (if n_url n \<noteq> [] \<and> n_url e3 = [] then e3\<lparr> n_url := n_url n \<rparr> else e3);
          e5 = (case n_content n of
                  None \<Rightarrow> Inr e4
                | Some c \<Rightarrow>
                    if length c > 0 then
                      (case n_content e4 of
                         None \<Rightarrow> Inl TypeError
                       | Some ec \<Rightarrow> if length ec = 0 then Inr (e4\<lparr> n_content := Some c \<rparr>) else Inr e4)
                    else Inr e4)
      in case e5 of
           Inl err \<Rightarrow> Inl err
         | Inr e \<Rightarrow> Inr (if \<not> n_fromCache e then e\<lparr> n_fromCache := n_fromCache n \<rparr> else e))"

fun deduplicateNodes_loop :: "node list \<Rightarrow> node list \<Rightarrow> error + node list" where
  "deduplicateNodes_loop [] nodeMap = Inr nodeMap"
| "deduplicateNodes_loop (n # ns) nodeMap =
     (case mapGet nodeMap (n_id n) of
        Some existingNode \<Rightarrow>
          if \<not> n_fromCache n \<or> n_fromCache existingNode then
            (case mergeNode existingNode n of
               Inl err \<Rightarrow> Inl err
             | Inr merged \<Rightarrow> deduplicateNodes_loop ns (mapUpdate (\<lambda>_. merged) (n_id n) nodeMap))
          else deduplicateNodes_loop ns nodeMap
      | None \<Rightarrow> deduplicateNodes_loop ns (nodeMap @ [n]))"

definition deduplicateNodes :: "node list \<Rightarrow> error + node list" where
  "deduplicateNodes nodes = deduplicateNodes_loop nodes []"

text \<open>The decimal digits of a number, as a template literal prints it.\<close>

function showNat :: "nat \<Rightarrow> string" where
  "showNat n = (if n < 10 then [char_of (48 + n)] else showNat (n div 10) @ [char_of (48 + n mod 10)])"
  by pat_completeness auto
termination
  by (relation "measure (\<lambda>n. n)") auto

text \<open>
  \<open>validateEdges\<close>. The source returns \<open>validEdges\<close> and reports \<open>orphanedCount\<close>
  with \<open>console.warn\<close> when it is positive: the model returns the list, the count and
  the lines written to the console.
\<close>

definition resolveTarget :: "node list \<Rightarrow> (string \<rightharpoonup> string) \<Rightarrow> string \<Rightarrow> string" where
  "resolveTarget nodeMap n2i targetId =
     (if \<not> mapHas nodeMap targetId \<and> n2i targetId \<noteq> None then the (n2i targetId) else targetId)"

definition validateEdges_step ::
  "node list \<Rightarrow> (string \<rightharpoonup> string) \<Rightarrow> edge \<Rightarrow> vedge list \<times> nat \<Rightarrow> vedge list \<times> nat" where
  "validateEdges_step nodeMap n2i e acc =
     (let validEdges = fst acc; orphanedCount = snd acc;
          targetId = resolveTarget nodeMap n2i (e_target e)
      in if mapHas nodeMap (e_source e) \<and> mapHas nodeMap targetId then
           (validEdges @ [\<lparr> e_source = e_source e, e_target = targetId, e_refType = e_refType e,
                             e_refTitle = e_refTitle e, e_refUrl = e_refUrl e,
                             e_id = ''edge_'' @ e_source e @ ''_'' @ targetId @ ''_'' @ showNat (length validEdges) \<rparr>],
            orphanedCount)
         else (validEdges, orphanedCount + 1))"

record validation =
  validEdges :: "vedge list"
  orphanedCount :: nat
  console :: "string list"

definition validateEdges :: "edge list \<Rightarrow> node list \<Rightarrow> (string \<rightharpoonup> string) \<Rightarrow> validation" where
  "validateEdges edges nodeMap n2i =
     (let acc = fold (validateEdges_step nodeMap n2i) edges ([], 0) in
      \<lparr> validEdges = fst acc, orphanedCount = snd acc,
        console = (if snd acc > 0 then [showNat (snd acc) @ '' orphaned references (target not found)'']
                   else []) \<rparr>)"

definition calculateReferenceCounts :: "node list \<Rightarrow> vedge list \<Rightarrow> node list" where
  "calculateReferenceCounts nodeMap edges =
     fold (\<lambda>e nm. mapUpdate (\<lambda>targetNode. targetNode\<lparr> n_refCount := n_refCount targetNode + 1 \<rparr>)
                    (e_target e) nm) edges nodeMap"

text \<open>
  The graph \<open>buildGraph\<close> returns: the \<open>data\<close> of every Cytoscape node and edge (the
  colour of the department, which only the renderer reads, is left out), the node map
  and the counts.
\<close>

record gnode = node +
  n_inCycle :: bool
  n_cycleIds :: "nat list"

record gedge = vedge +
  e_isCycleEdge :: bool
  e_cycleIds :: "nat list"

record graphStats =
  totalNodes :: nat
  totalEdges :: nat
  circularNodes :: nat
  pdfNodes :: nat
  webNodes :: nat

record graphData =
  g_nodes :: "gnode list"
  g_edges :: "gedge list"
  g_nodeMap :: "node list"
  g_stats :: graphStats

definition toCyNode :: "node \<Rightarrow> gnode" where
  "toCyNode n = node.extend n (gnode.fields False [])"

definition toCyEdge :: "vedge \<Rightarrow> gedge" where
  "toCyEdge e = vedge.extend e (gedge.fields False [])"

definition extractAll :: "(nat \<Rightarrow> string) \<Rightarrow> loadedData \<Rightarrow> bstate" where
  "extractAll rnd loaded =
     (let st0 = \<lparr> b_nodes = [], b_edges = [], nodeIdToNormalizedId = Map.empty, b_random = 0 \<rparr>;
          st1 = fold (extractCircularsFromMainFile rnd) (mainFiles loaded) st0
      in case cache loaded of None \<Rightarrow> st1 | Some c \<Rightarrow> extractCircularsFromCache rnd c st1)"

definition buildGraph :: "(nat \<Rightarrow> string) \<Rightarrow> loadedData \<Rightarrow> error + graphData" where
  "buildGraph rnd loaded =
     (let st = extractAll rnd loaded in
      case deduplicateNodes (b_nodes st) of
        Inl err \<Rightarrow> Inl err
      | Inr nodeMap0 \<Rightarrow>
         (let v = validateEdges (b_edges st) nodeMap0 (nodeIdToNormalizedId st);
              nodeMap = calculateReferenceCounts nodeMap0 (validEdges v);
              cyNodes = map toCyNode nodeMap;
              cyEdges = map toCyEdge (validEdges v)
          in Inr \<lparr> g_nodes = cyNodes, g_edges = cyEdges, g_nodeMap = nodeMap,
                   g_stats = \<lparr> totalNodes = length cyNodes, totalEdges = length cyEdges,
                      circularNodes = length (filter (\<lambda>n. n_type n = ''circular'') cyNodes),
                      pdfNodes = length (filter (\<lambda>n. n_type n = ''pdf'') cyNodes),
                      webNodes = length (filter (\<lambda>n. n_type n = ''web'') cyNodes) \<rparr> \<rparr>))"

section \<open>Cycle detector (cycle-detector.js)\<close>

record neighbor =
  nb_target :: string
  nb_edgeId :: string

definition buildAdjacencyList :: "graphData \<Rightarrow> (string \<rightharpoonup> neighbor list)" where
  "buildAdjacencyList graph =
     (let adj0 = fold (\<lambda>n adj. adj(n_id n \<mapsto> [])) (g_nodes graph) Map.empty in
      fold (\<lambda>e adj.
              if e_refType e = ''circular'' then
                (case adj (e_source e) of
                   Some ns \<Rightarrow> adj(e_source e \<mapsto> ns @ [\<lparr> nb_target = e_target e, nb_edgeId = e_id e \<rparr>])
                 | None \<Rightarrow> adj)
              else adj)
           (g_edges graph) adj0)"

record cycle =
  cyc_nodes :: "string list"
  cyc_edges :: "string list"
  cyc_length :: nat

record dstate =
  visited :: "string set"
  recursionStack :: "string set"
  cycles :: "cycle list"
  nodesInCycles :: "string set"
  edgesInCycles :: "string set"

text \<open>\<open>path.indexOf(targetId)\<close>: the first position, if there is one.\<close>

fun indexOf :: "string list \<Rightarrow> string \<Rightarrow> nat option" where
  "indexOf [] x = None"
| "indexOf (y # ys) x = (if y = x then Some 0 else map_option Suc (indexOf ys x))"

definition recordCycle :: "string list \<Rightarrow> string list \<Rightarrow> neighbor \<Rightarrow> dstate \<Rightarrow> dstate" where
  "recordCycle path edgePath nb st =
     (case indexOf path (nb_target nb) of
        None \<Rightarrow> st
      | Some cycleStartIndex \<Rightarrow>
         (let cyc = drop cycleStartIndex path;
              cycleEdges = drop cycleStartIndex edgePath @ [nb_edgeId nb]
          in st\<lparr> cycles := cycles st @ [\<lparr> cyc_nodes = cyc, cyc_edges = cycleEdges, cyc_length = length cyc \<rparr>],
                 nodesInCycles := nodesInCycles st \<union> set cyc,
                 edgesInCycles := edgesInCycles st \<union> set cycleEdges \<rparr>))"

text \<open>
  The recursive \<open>dfs\<close> and its loop over the neighbours. The first argument bounds the
  depth of the recursion (the call stack): \<open>None\<close> is a recursion deeper than that.
  The callee works on its own copy of \<open>path\<close>; \<open>edgePath\<close> is never changed in place.
\<close>

fun dfs :: "nat \<Rightarrow> (string \<rightharpoonup> neighbor list) \<Rightarrow> string \<Rightarrow> string list \<Rightarrow> string list \<Rightarrow> dstate \<Rightarrow> dstate option"
  and dfs_neighbors :: "nat \<Rightarrow> (string \<rightharpoonup> neighbor list) \<Rightarrow> neighbor list \<Rightarrow> string list \<Rightarrow> string list \<Rightarrow> dstate \<Rightarrow> dstate option"
  where
  "dfs 0 adjList nodeId path edgePath st = None"
| "dfs (Suc k) adjList nodeId path edgePath st =
     (let st1 = st\<lparr> visited := insert nodeId (visited st),
                    recursionStack := insert nodeId (recursionStack st) \<rparr>;
          path1 = path @ [nodeId];
          neighbors = (case adjList nodeId of Some ns \<Rightarrow> ns | None \<Rightarrow> [])
      in case dfs_neighbors k adjList neighbors path1 edgePath st1 of
           None \<Rightarrow> None
         | Some st2 \<Rightarrow> Some (st2\<lparr> recursionStack := recursionStack st2 - {nodeId} \<rparr>))"
| "dfs_neighbors k adjList [] path edgePath st = Some st"
| "dfs_neighbors k adjList (nb # nbs) path edgePath st =
     (if nb_target nb \<in> recursionStack st then
        dfs_neighbors k adjList nbs path edgePath (recordCycle path edgePath nb st)
      else if nb_target nb \<notin> visited st then
        (case dfs k adjList (nb_target nb) path (edgePath @ [nb_edgeId nb]) st of
           None \<Rightarrow> None
         | Some st1 \<Rightarrow> dfs_neighbors k adjList nbs path edgePath st1)
      else dfs_neighbors k adjList nbs path edgePath st)"

fun detectCycles_loop :: "nat \<Rightarrow> (string \<rightharpoonup> neighbor list) \<Rightarrow> string list \<Rightarrow> dstate \<Rightarrow> dstate option" where
  "detectCycles_loop k adjList [] st = Some st"
| "detectCycles_loop k adjList (nodeId # rest) st =
     (if nodeId \<notin> visited st then
        (case dfs k adjList nodeId [] [] st of
           None \<Rightarrow> None
         | Some st1 \<Rightarrow> detectCycles_loop k adjList rest st1)
      else detectCycles_loop k adjList rest st)"

text \<open>
  \<open>detectCycles\<close>. A recursion visits a new id at each level, and every id is a node
  or the target of an edge, so the bound below is never reached.
\<close>

definition detectCycles :: "graphData \<Rightarrow> dstate option" where
  "detectCycles graph =
     detectCycles_loop (Suc (length (g_nodes graph) + length (g_edges graph)))
       (buildAdjacencyList graph) (map n_id (g_nodes graph))
       \<lparr> visited = {}, recursionStack = {}, cycles = [], nodesInCycles = {}, edgesInCycles = {} \<rparr>"

section \<open>The claims in the words of the specification\<close>

text \<open>
  The visibility rule as the specification words it: a node is hidden when its
  department is not allowed, or it has a known year outside the range, or only cycles
  are shown and it is on none, or isolated nodes are not shown and its degree is zero.
\<close>

definition hiddenAsSpecified :: "filters \<Rightarrow> cytoscape \<Rightarrow> cyNode \<Rightarrow> bool" where
  "hiddenAsSpecified af cy n =
     (cn_department n \<notin> set (departments af)
      \<or> (cn_year n \<noteq> None \<and> (the (cn_year n) < yearMin af \<or> the (cn_year n) > yearMax af))
      \<or> (showCyclesOnly af \<and> \<not> cn_inCycle n)
      \<or> (\<not> showIsolated af \<and> degree cy n = 0))"

text \<open>
  The dimming rule as the specification words it: the search string is not empty and
  neither the id nor the title contains it, letter case ignored.
\<close>

definition dimmedAsSpecified :: "filters \<Rightarrow> cyNode \<Rightarrow> bool" where
  "dimmedAsSpecified af n =
     (searchQuery af \<noteq> []
      \<and> \<not> str_includes (toLowerCase (cn_id n)) (toLowerCase (searchQuery af))
      \<and> \<not> str_includes (toLowerCase (cn_title n)) (toLowerCase (searchQuery af)))"

text \<open>
  An edge can be resolved when its source is a node and its target is a node, or is a
  key of the normalized-title table whose entry is a node.
\<close>

definition resolvable :: "node list \<Rightarrow> (string \<rightharpoonup> string) \<Rightarrow> edge \<Rightarrow> bool" where
  "resolvable nodeMap n2i e =
     (mapHas nodeMap (e_source e)
      \<and> (mapHas nodeMap (e_target e)
         \<or> (case n2i (e_target e) of None \<Rightarrow> False | Some i \<Rightarrow> mapHas nodeMap i)))"

text \<open>
  A closed path of circular-type edges, as the specification defines a cycle: every node
  of the list refers to the next with an edge of type \<open>circular\<close>, and the last refers
  to the first. A cycle is reported when the returned list holds it, whichever of its
  nodes the list starts with.
\<close>

definition circularEdge :: "graphData \<Rightarrow> string \<Rightarrow> string \<Rightarrow> bool" where
  "circularEdge graph a b =
     list_ex (\<lambda>e. e_refType e = ''circular'' \<and> e_source e = a \<and> e_target e = b) (g_edges graph)"

fun walk :: "graphData \<Rightarrow> string list \<Rightarrow> string \<Rightarrow> bool" where
  "walk graph [] first = False"
| "walk graph [x] first = circularEdge graph x first"
| "walk graph (x # y # rest) first = (circularEdge graph x y \<and> walk graph (y # rest) first)"

definition closedPath :: "graphData \<Rightarrow> string list \<Rightarrow> bool" where
  "closedPath graph ns = (case ns of [] \<Rightarrow> False | n # rest \<Rightarrow> walk graph ns n)"

definition reported :: "dstate \<Rightarrow> string list \<Rightarrow> bool" where
  "reported result ns =
     list_ex (\<lambda>c. list_ex (\<lambda>i. cyc_nodes c = rotate i ns) [0 ..< length ns]) (cycles result)"

section \<open>Notions used in the proofs\<close>

text \<open>
  The circular nodes discovered so far whose id normalizes to the key \<open>k\<close>, in the
  order of their registration in \<open>nodeIdToNormalizedId\<close> (\<open>processCircular\<close> and
  \<open>extractCircularsFromCache\<close> register a node when they push it).
\<close>

definition registeredAs :: "string \<Rightarrow> node list \<Rightarrow> node list" where
  "registeredAs k ns = filter (\<lambda>n. n_type n = ''circular'' \<and> normalizeTitle (n_id n) = k) ns"

text \<open>
  The shape of a normalized title, one predicate for each \<open>replace\<close>: no zero at a
  word boundary is followed by a digit (the flag says whether the character before is a
  word character); the text \<open>no.\<close> does not occur (the number is how much of it has
  just been read); every white space is one blank followed by no white space.
\<close>

fun startsDigit :: "string \<Rightarrow> bool" where
  "startsDigit [] = False"
| "startsDigit (d # ds) = isDigit d"

fun startsSpace :: "string \<Rightarrow> bool" where
  "startsSpace [] = False"
| "startsSpace (c # cs) = isSpace c"

fun noLeadingZeros :: "bool \<Rightarrow> string \<Rightarrow> bool" where
  "noLeadingZeros prevWord [] = True"
| "noLeadingZeros prevWord (c # cs) =
     (\<not> (c = CHR ''0'' \<and> \<not> prevWord \<and> startsDigit cs) \<and> noLeadingZeros (isWord c) cs)"

fun noNoDot :: "nat \<Rightarrow> string \<Rightarrow> bool" where
  "noNoDot k [] = True"
| "noNoDot k (c # cs) =
     (\<not> (k = 2 \<and> c = CHR ''.'')
      \<and> noNoDot (if isN c then 1 else if k = 1 \<and> isO c then 2 else 0) cs)"

fun singleBlanks :: "string \<Rightarrow> bool" where
  "singleBlanks [] = True"
| "singleBlanks (c # cs) = ((\<not> isSpace c \<or> (c = CHR '' '' \<and> \<not> startsSpace cs)) \<and> singleBlanks cs)"

text \<open>One node refers to another in the adjacency list of the detector.\<close>

definition adjacent :: "(string \<rightharpoonup> neighbor list) \<Rightarrow> string \<Rightarrow> string \<Rightarrow> bool" where
  "adjacent adjList a b =
     (case adjList a of None \<Rightarrow> False | Some ns \<Rightarrow> list_ex (\<lambda>nb. nb_target nb = b) ns)"

section \<open>Concrete inputs\<close>

definition mkCyNode :: "string \<Rightarrow> string \<Rightarrow> string \<Rightarrow> int option \<Rightarrow> bool \<Rightarrow> cyNode" where
  "mkCyNode i title dept year inCycle =
     \<lparr> cn_id = i, cn_title = title, cn_department = dept, cn_year = year, cn_inCycle = inCycle,
       cn_hidden = False, cn_dimmed = False \<rparr>"

definition mkCyEdge :: "string \<Rightarrow> string \<Rightarrow> string \<Rightarrow> cyEdge" where
  "mkCyEdge i s t = \<lparr> ce_id = i, ce_source = s, ce_target = t, ce_hidden = False, ce_dimmed = False \<rparr>"

text \<open>A node dated \<open>0000-00-00\<close>, whose year is the number 0, under the default year range.\<close>

definition filters_acd :: filters where
  "filters_acd = activeFilters_init\<lparr> departments := [''ACD''] \<rparr>"

definition cy_year0 :: cytoscape where
  "cy_year0 = \<lparr> cy_nodes = [mkCyNode ''ACD Circular No. 1'' ''Undated'' ''ACD'' (extractYearFromDate ''0000-00-00'') False],
                cy_edges = [] \<rparr>"

text \<open>
  Three nodes and one edge, with only cycles shown and a search for \<open>bank\<close>: the first
  node is in no allowed department, the second is on no cycle, the third matches.
\<close>

definition filters_search :: filters where
  "filters_search = activeFilters_init\<lparr> departments := [''ACD''], searchQuery := ''bank'',
     showCyclesOnly := True \<rparr>"

definition cy_three :: cytoscape where
  "cy_three = \<lparr> cy_nodes = [mkCyNode ''BPRD Circular No. 2'' ''Prudential rules'' ''BPRD'' (Some 2020) True,
                             mkCyNode ''ACD Circular No. 3'' ''Agricultural credit'' ''ACD'' (Some 2021) False,
                             mkCyNode ''ACD Circular No. 4'' ''Bank financing'' ''ACD'' None True],
                cy_edges = [mkCyEdge ''edge_0'' ''ACD Circular No. 4'' ''ACD Circular No. 3''] \<rparr>"

definition app_init :: app where
  "app_init = \<lparr> activeFilters = activeFilters_init, cy_instance = None, localStorage = Map.empty \<rparr>"

text \<open>The application once the graph of three nodes is shown.\<close>

definition app_graph :: app where
  "app_graph = app_init\<lparr> cy_instance := Some cy_three \<rparr>"

text \<open>
  Two primary documents: two circulars whose ids normalize to the same key, and a third
  that refers to the first of them, to a circular that does not exist, and to a pdf.
\<close>

definition noRandom :: "nat \<Rightarrow> string" where
  "noRandom k = ''0.5''"

definition circ_acd01 :: circular where
  "circ_acd01 = \<lparr> c_ID = ''ACD Circular No. 01'', c_title = ''Crop loan limits'',
     c_date = ''January 05, 2020'', c_url = ''https://example.org/acd01'', c_content = [''text''],
     c_references = None \<rparr>"

definition circ_acd1 :: circular where
  "circ_acd1 = \<lparr> c_ID = ''ACD Circular No. 1'', c_title = ''Revised crop loan limits'',
     c_date = ''March 10, 2020'', c_url = ''https://example.org/acd1'', c_content = [''text''],
     c_references = None \<rparr>"

definition circ_bprd5 :: circular where
  "circ_bprd5 = \<lparr> c_ID = ''BPRD Circular No. 5'', c_title = ''Prudential limits'',
     c_date = ''July 01, 2021'', c_url = ''https://example.org/bprd5'', c_content = [],
     c_references = Some [Ref ''circular'' ''ACD Circular No. 01'' [] None,
                          Ref ''circular'' ''ACD Circular No. 9'' [] None,
                          Ref ''pdf'' ''Annexure'' ''https://example.org/annex.pdf'' None] \<rparr>"

definition loaded_collision :: loadedData where
  "loaded_collision = \<lparr> mainFiles =
     [\<lparr> fd_department = ''ACD'',
         fd_years = Some [(''2020'', \<lparr> circulars = [Some circ_acd01, Some circ_acd1], circular_letters = [] \<rparr>)] \<rparr>,
      \<lparr> fd_department = ''BPRD'',
         fd_years = Some [(''2021'', \<lparr> circulars = [Some circ_bprd5], circular_letters = [] \<rparr>)] \<rparr>],
     cache = None \<rparr>"

text \<open>
  The same circular as \<open>processCircular\<close> builds it from a primary document without
  content, and as \<open>extractCircularsFromCache\<close> builds it from the cache.
\<close>

definition node_main :: node where
  "node_main = \<lparr> n_id = ''BSD Circular No. 7'', n_label = ''BSD Circular No. 7'',
     n_title = ''Liquidity returns'', n_date = Some ''June 01, 2019'', n_year = Some 2019,
     n_department = ''BSD'', n_url = ''https://example.org/bsd7'', n_content = Some [],
     n_type = ''circular'', n_refCount = 0, n_fromCache = False \<rparr>"

definition node_cache :: node where
  "node_cache = \<lparr> n_id = ''BSD Circular No. 7'', n_label = ''BSD Circular No. 7'',
     n_title = ''BSD Circular No. 7'', n_date = Some [], n_year = None,
     n_department = ''BSD'', n_url = [], n_content = Some [''cached text''],
     n_type = ''circular'', n_refCount = 0, n_fromCache = True \<rparr>"

text \<open>
  The same circular once more from a primary document, this time with content, and a
  pdf node whose id is the id of that circular.
\<close>

definition node_letter :: node where
  "node_letter = \<lparr> n_id = ''BSD Circular No. 7'', n_label = ''BSD Circular No. 7'',
     n_title = ''Liquidity returns (revised)'', n_date = Some ''July 15, 2019'', n_year = Some 2019,
     n_department = ''BSD'', n_url = [], n_content = Some [''text''],
     n_type = ''circular'', n_refCount = 0, n_fromCache = False \<rparr>"

definition node_pdf :: node where
  "node_pdf = attachmentNode ''BSD Circular No. 7'' ''Annexure'' ''PDF Document'' ''BSD Circular No. 7''
     ''pdf'' ''BSD''"

text \<open>
  Three circulars: \<open>A\<close> refers to \<open>B\<close> and to \<open>C\<close>, \<open>B\<close> refers to \<open>A\<close>, and
  \<open>C\<close> refers to \<open>B\<close>.
\<close>

definition mkCircular :: "string \<Rightarrow> string list \<Rightarrow> circular" where
  "mkCircular i refs = \<lparr> c_ID = i, c_title = i, c_date = ''January 01, 2020'', c_url = [],
     c_content = [], c_references = Some (map (\<lambda>t. Ref ''circular'' t [] None) refs) \<rparr>"

definition loaded_two_cycles :: loadedData where
  "loaded_two_cycles = \<lparr> mainFiles =
     [\<lparr> fd_department = ''ACD'',
         fd_years = Some [(''2020'', \<lparr> circulars = [Some (mkCircular ''A'' [''B'', ''C'']),
                                                     Some (mkCircular ''B'' [''A'']),
                                                     Some (mkCircular ''C'' [''B''])],
                                      circular_letters = [] \<rparr>)] \<rparr>],
     cache = None \<rparr>"

definition graph_two_cycles :: graphData where
  "graph_two_cycles = projr (buildGraph noRandom loaded_two_cycles)"

section \<open>Properties of the filters\<close>

lemma removeClasses_nodes:
  "cy_nodes (removeClasses cy) = map (\<lambda>n. n\<lparr>cn_hidden := False, cn_dimmed := False\<rparr>) (cy_nodes cy)"
  by (simp add: removeClasses_def)

lemma removeClasses_edges:
  "cy_edges (removeClasses cy) = map (\<lambda>e. e\<lparr>ce_hidden := False, ce_dimmed := False\<rparr>) (cy_edges cy)"
  by (simp add: removeClasses_def)

lemma filterByDepartment_nodes:
  "cy_nodes (filterByDepartment af cy) =
     map (\<lambda>n. n\<lparr>cn_hidden := (cn_hidden n \<or> cn_department n \<notin> set (departments af))\<rparr>) (cy_nodes cy)"
  by (simp add: filterByDepartment_def)

lemma filterByDepartment_edges: "cy_edges (filterByDepartment af cy) = cy_edges cy"
  by (simp add: filterByDepartment_def)

lemma filterByYear_nodes:
  "cy_nodes (filterByYear af cy) =
     map (\<lambda>n. n\<lparr>cn_hidden := (cn_hidden n \<or>
            (truthyYear (cn_year n) \<and> (the (cn_year n) < yearMin af \<or> the (cn_year n) > yearMax af)))\<rparr>)
       (cy_nodes cy)"
  by (auto simp: filterByYear_def)

lemma filterByYear_edges: "cy_edges (filterByYear af cy) = cy_edges cy"
  by (simp add: filterByYear_def)

lemma filterBySearch_nodes:
  "cy_nodes (filterBySearch af cy) =
     map (\<lambda>n. n\<lparr>cn_dimmed := (cn_dimmed n \<or>
            (searchQuery af \<noteq> [] \<and> \<not> matchesSearch af n \<and> \<not> cn_hidden n))\<rparr>) (cy_nodes cy)"
  by (simp add: filterBySearch_def)

lemma filterBySearch_edges: "cy_edges (filterBySearch af cy) = cy_edges cy"
  by (simp add: filterBySearch_def)

lemma filterCyclesOnly_nodes:
  "cy_nodes (filterCyclesOnly af cy) =
     map (\<lambda>n. n\<lparr>cn_hidden := (cn_hidden n \<or> (showCyclesOnly af \<and> \<not> cn_inCycle n))\<rparr>) (cy_nodes cy)"
  by (simp add: filterCyclesOnly_def)

lemma filterCyclesOnly_edges: "cy_edges (filterCyclesOnly af cy) = cy_edges cy"
  by (simp add: filterCyclesOnly_def)

lemma filterIsolated_nodes:
  "cy_nodes (filterIsolated af cy) =
     map (\<lambda>n. n\<lparr>cn_hidden := (cn_hidden n \<or> (\<not> showIsolated af \<and> degree cy n = 0))\<rparr>) (cy_nodes cy)"
  by (simp add: filterIsolated_def)

lemma filterIsolated_edges: "cy_edges (filterIsolated af cy) = cy_edges cy"
  by (simp add: filterIsolated_def)

lemma hideEdges_nodes: "cy_nodes (hideEdges cy) = cy_nodes cy"
  by (simp add: hideEdges_def)

lemma hideEdges_edges:
  "cy_edges (hideEdges cy) =
     map (\<lambda>e. e\<lparr>ce_hidden := (ce_hidden e \<or> nodeHasHidden (cy_nodes cy) (ce_source e)
                                \<or> nodeHasHidden (cy_nodes cy) (ce_target e))\<rparr>) (cy_edges cy)"
  by (simp add: hideEdges_def)

lemmas pass_nodes = hideEdges_nodes filterIsolated_nodes filterCyclesOnly_nodes filterBySearch_nodes
  filterByYear_nodes filterByDepartment_nodes removeClasses_nodes

lemmas pass_edges = filterIsolated_edges filterCyclesOnly_edges filterBySearch_edges
  filterByYear_edges filterByDepartment_edges removeClasses_edges

text \<open>What the seven passes together leave on every node.\<close>

lemma applyFiltersCy_nodes:
  "cy_nodes (applyFiltersCy af cy) =
     map (\<lambda>n. n\<lparr> cn_hidden :=
                    (cn_department n \<notin> set (departments af)
                     \<or> (truthyYear (cn_year n) \<and> (the (cn_year n) < yearMin af \<or> the (cn_year n) > yearMax af))
                     \<or> (showCyclesOnly af \<and> \<not> cn_inCycle n)
                     \<or> (\<not> showIsolated af \<and> degree cy n = 0)),
                  cn_dimmed :=
                    (searchQuery af \<noteq> [] \<and> \<not> matchesSearch af n
                     \<and> \<not> (cn_department n \<notin> set (departments af)
                          \<or> (truthyYear (cn_year n) \<and> (the (cn_year n) < yearMin af \<or> the (cn_year n) > yearMax af)))) \<rparr>)
         (cy_nodes cy)"
  unfolding applyFiltersCy_def
  by (simp add: pass_nodes pass_edges degree_def matchesSearch_def o_def disj_assoc)

lemma applyFiltersCy_edges:
  "cy_edges (applyFiltersCy af cy) =
     map (\<lambda>e. e\<lparr> ce_hidden := (nodeHasHidden (cy_nodes (applyFiltersCy af cy)) (ce_source e)
                               \<or> nodeHasHidden (cy_nodes (applyFiltersCy af cy)) (ce_target e)),
                  ce_dimmed := False \<rparr>) (cy_edges cy)"
  unfolding applyFiltersCy_def
  by (simp add: hideEdges_nodes hideEdges_edges pass_edges o_def)

lemma nodeHasHidden_iff:
  "distinct (map cn_id ns) \<Longrightarrow>
     nodeHasHidden ns i = (\<exists>n \<in> set ns. cn_id n = i \<and> cn_hidden n)"
proof (induction ns)
  case Nil
  then show ?case by (simp add: nodeHasHidden_def)
next
  case (Cons m ms)
  then have ih: "nodeHasHidden ms i = (\<exists>n \<in> set ms. cn_id n = i \<and> cn_hidden n)" by simp
  show ?case
  proof (cases "cn_id m = i")
    case True
    with Cons.prems have "\<forall>n \<in> set ms. cn_id n \<noteq> i" by (force simp: image_iff)
    with True show ?thesis by (auto simp: nodeHasHidden_def)
  next
    case False
    have "nodeHasHidden (m # ms) i = nodeHasHidden ms i"
      using False by (simp add: nodeHasHidden_def)
    with ih False show ?thesis by auto
  qed
qed

text \<open>
  C2, as the code has it. After \<open>applyFilters\<close> a node is hidden exactly when its
  department is not in the allowed set, or its year passes the truth test of the source
  (it is present and not 0) and lies outside \<open>[yearMin, yearMax]\<close>, or only cycles are
  shown and the node is on none, or isolated nodes are not shown and its degree is zero.
  The nodes keep their ids and their order.
\<close>

theorem applyFilters_hidden_iff:
  "map cn_hidden (cy_nodes (applyFiltersCy af cy)) =
     map (\<lambda>n. cn_department n \<notin> set (departments af)
             \<or> (truthyYear (cn_year n) \<and> (the (cn_year n) < yearMin af \<or> the (cn_year n) > yearMax af))
             \<or> (showCyclesOnly af \<and> \<not> cn_inCycle n)
             \<or> (\<not> showIsolated af \<and> degree cy n = 0)) (cy_nodes cy)
   \<and> map cn_id (cy_nodes (applyFiltersCy af cy)) = map cn_id (cy_nodes cy)"
  by (simp add: applyFiltersCy_nodes o_def)

theorem applyFilters_hidden_iff_witness:
  "map cn_hidden (cy_nodes (applyFiltersCy filters_search cy_three)) = [True, True, False]
   \<and> map cn_id (cy_nodes (applyFiltersCy filters_search cy_three))
       = [''BPRD Circular No. 2'', ''ACD Circular No. 3'', ''ACD Circular No. 4'']"
  using applyFilters_hidden_iff [of filters_search cy_three]
  by (simp add: filters_search_def cy_three_def mkCyNode_def mkCyEdge_def activeFilters_init_def
      truthyYear_def degree_def)

text \<open>
  C2 as stated fails on a node whose year is the number 0 (a date \<open>0000-00-00\<close>): the
  year is known and outside 2000..2025, yet the node is not hidden.
\<close>

theorem applyFilters_hidden_year0_counterexample:
  "map cn_hidden (cy_nodes (applyFiltersCy filters_acd cy_year0)) = [False]
   \<and> map (hiddenAsSpecified filters_acd cy_year0) (cy_nodes cy_year0) = [True]"
  by code_simp

text \<open>
  C5. After \<open>applyFilters\<close>, in a graph whose node ids are distinct, an edge is hidden
  exactly when a node that is its source or its target is hidden; the class the edge had
  before plays no part.
\<close>

theorem applyFilters_edge_hidden_iff:
  assumes "distinct (map cn_id (cy_nodes cy))"
    and "e \<in> set (cy_edges (applyFiltersCy af cy))"
  shows "ce_hidden e =
     (\<exists>n \<in> set (cy_nodes (applyFiltersCy af cy)).
        (cn_id n = ce_source e \<or> cn_id n = ce_target e) \<and> cn_hidden n)"
proof -
  let ?ns = "cy_nodes (applyFiltersCy af cy)"
  have "map cn_id ?ns = map cn_id (cy_nodes cy)"
    by (simp add: applyFiltersCy_nodes o_def)
  with assms(1) have d: "distinct (map cn_id ?ns)" by simp
  from assms(2) obtain e0 where e: "e = e0\<lparr> ce_hidden := (nodeHasHidden ?ns (ce_source e0)
        \<or> nodeHasHidden ?ns (ce_target e0)), ce_dimmed := False \<rparr>"
    by (subst (asm) applyFiltersCy_edges) auto
  then have "ce_hidden e = (nodeHasHidden ?ns (ce_source e) \<or> nodeHasHidden ?ns (ce_target e))"
    by simp
  then show ?thesis
    unfolding nodeHasHidden_iff [OF d] by blast
qed

theorem applyFilters_edge_hidden_iff_witness:
  "distinct (map cn_id (cy_nodes cy_three))
   \<and> cy_edges (applyFiltersCy filters_search cy_three)
       = [(mkCyEdge ''edge_0'' ''ACD Circular No. 4'' ''ACD Circular No. 3'')\<lparr> ce_hidden := True \<rparr>]
   \<and> (\<exists>n \<in> set (cy_nodes (applyFiltersCy filters_search cy_three)).
        (cn_id n = ''ACD Circular No. 4'' \<or> cn_id n = ''ACD Circular No. 3'') \<and> cn_hidden n)"
proof -
  have d: "distinct (map cn_id (cy_nodes cy_three))"
    by (simp add: cy_three_def mkCyNode_def)
  have es: "cy_edges (applyFiltersCy filters_search cy_three)
       = [(mkCyEdge ''edge_0'' ''ACD Circular No. 4'' ''ACD Circular No. 3'')\<lparr> ce_hidden := True \<rparr>]"
    by code_simp
  then have m: "(mkCyEdge ''edge_0'' ''ACD Circular No. 4'' ''ACD Circular No. 3'')\<lparr> ce_hidden := True \<rparr>
       \<in> set (cy_edges (applyFiltersCy filters_search cy_three))"
    by simp
  from applyFilters_edge_hidden_iff [OF d m] d es show ?thesis
    by (simp add: mkCyEdge_def)
qed

text \<open>
  C6, as the code has it. After \<open>applyFilters\<close> a node is dimmed exactly when the
  stored search string is not empty, neither the lower-cased id nor the lower-cased
  title contains it, and the node is not hidden by the department or the year condition.
  A node hidden only by the cycle or the isolation condition is dimmed all the same.
\<close>

theorem applyFilters_dimmed_iff:
  "map cn_dimmed (cy_nodes (applyFiltersCy af cy)) =
     map (\<lambda>n. searchQuery af \<noteq> [] \<and> \<not> matchesSearch af n
             \<and> cn_department n \<in> set (departments af)
             \<and> \<not> (truthyYear (cn_year n) \<and> (the (cn_year n) < yearMin af \<or> the (cn_year n) > yearMax af)))
       (cy_nodes cy)"
  by (simp add: applyFiltersCy_nodes o_def)

theorem applyFilters_dimmed_iff_witness:
  "map cn_dimmed (cy_nodes (applyFiltersCy filters_search cy_three)) = [False, True, False]"
proof -
  have "map (\<lambda>n. searchQuery filters_search \<noteq> [] \<and> \<not> matchesSearch filters_search n
             \<and> cn_department n \<in> set (departments filters_search)
             \<and> \<not> (truthyYear (cn_year n) \<and> (the (cn_year n) < yearMin filters_search
                    \<or> the (cn_year n) > yearMax filters_search)))
       (cy_nodes cy_three) = [False, True, False]"
    by code_simp
  with applyFilters_dimmed_iff [of filters_search cy_three] show ?thesis by simp
qed

text \<open>
  C6 as stated fails: of two hidden nodes that do not match the search, the one hidden
  by its department is not dimmed and the one hidden by the cycle condition is.
\<close>

theorem applyFilters_dimmed_counterexample:
  "map (\<lambda>n. (cn_hidden n, cn_dimmed n)) (cy_nodes (applyFiltersCy filters_search cy_three))
     = [(True, False), (True, True), (False, False)]
   \<and> map (dimmedAsSpecified filters_search) (cy_nodes cy_three) = [True, True, False]"
  by code_simp

lemma toLowerChar_idem: "toLowerChar (toLowerChar c) = toLowerChar c"
  by (auto simp: toLowerChar_def Let_def)

lemma toLowerCase_idem: "toLowerCase (toLowerCase s) = toLowerCase s"
  by (simp add: toLowerCase_def toLowerChar_idem)

lemma set_trim: "set (trim s) \<subseteq> set s"
proof -
  have "set (trim s) = set (dropWhile isSpace (rev (dropWhile isSpace s)))"
    by (simp add: trim_def)
  also have "\<dots> \<subseteq> set (rev (dropWhile isSpace s))" by (rule set_dropWhileD [THEN subsetI])
  also have "\<dots> \<subseteq> set s" using set_dropWhileD by fastforce
  finally show ?thesis .
qed

text \<open>The search string that \<open>onSearchInput\<close> stores is in lower case already.\<close>

lemma onSearchInput_lowercase:
  "toLowerCase (searchQuery (activeFilters (onSearchInput v a))) = searchQuery (activeFilters (onSearchInput v a))"
proof -
  have q: "searchQuery (activeFilters (onSearchInput v a)) = trim (toLowerCase v)"
    by (simp add: onSearchInput_def runApplyFilters_def)
  have "\<forall>c \<in> set (trim (toLowerCase v)). toLowerChar c = c"
    using set_trim [of "toLowerCase v"] by (auto simp: toLowerCase_def toLowerChar_idem)
  then have "toLowerCase (trim (toLowerCase v)) = trim (toLowerCase v)"
    unfolding toLowerCase_def by (simp add: map_idI)
  with q show ?thesis by simp
qed

text \<open>
  C9, as the code has it. Each of the three handlers \<open>onDepartmentFilterChange\<close>,
  \<open>onYearFilterChange\<close> and \<open>onDisplayOptionChange\<close> writes the record of the state
  it leaves under the key \<open>filterState\<close>; the record has the six fields
  \<open>departments\<close>, \<open>yearMin\<close>, \<open>yearMax\<close>, \<open>showCyclesOnly\<close>, \<open>showLabels\<close> and
  \<open>showIsolated\<close>. \<open>onSearchInput\<close> and \<open>clearSearch\<close> write nothing.
  \<open>resetFilters\<close> writes nothing either: it removes the record, and does nothing at
  all while there is no graph. \<open>initializeYearFilters\<close> sets the year range and leaves
  the store as it is.
\<close>

theorem saveFilterState_on_change:
  "localStorage (onDepartmentFilterChange dept checked a) ''filterState''
     = Some (filterStateRecord (activeFilters (onDepartmentFilterChange dept checked a)))
   \<and> localStorage (onYearFilterChange targetId yMin yMax a) ''filterState''
     = Some (filterStateRecord (activeFilters (onYearFilterChange targetId yMin yMax a)))
   \<and> localStorage (onDisplayOptionChange option checked a) ''filterState''
     = Some (filterStateRecord (activeFilters (onDisplayOptionChange option checked a)))
   \<and> map fst (filterStateRecord af)
     = [''departments'', ''yearMin'', ''yearMax'', ''showCyclesOnly'', ''showLabels'', ''showIsolated'']
   \<and> localStorage (onSearchInput v a) = localStorage a
   \<and> localStorage (clearSearch a) = localStorage a
   \<and> localStorage (resetFilters checkboxes sliderMin sliderMax a)
     = (case cy_instance a of None \<Rightarrow> localStorage a
        | Some cy \<Rightarrow> (localStorage a)(''filterState'' := None))
   \<and> localStorage (initializeYearFilters a) = localStorage a"
  by (simp add: onDepartmentFilterChange_def onYearFilterChange_def onDisplayOptionChange_def
      onSearchInput_def clearSearch_def saveFilterState_def runApplyFilters_def
      resetFilters_def initializeYearFilters_def
      filterStateRecord_def Let_def split: option.split)

theorem saveFilterState_on_change_witness:
  "localStorage (onDepartmentFilterChange ''ACD'' True app_graph) ''filterState''
     = Some [(''departments'', JArray [JString ''ACD'']), (''yearMin'', JNumber 2000),
             (''yearMax'', JNumber 2025), (''showCyclesOnly'', JBool False),
             (''showLabels'', JBool False), (''showIsolated'', JBool True)]
   \<and> localStorage (resetFilters [''ACD'', ''BPRD''] 2020 2021
        (onDepartmentFilterChange ''ACD'' True app_graph)) ''filterState'' = None
   \<and> localStorage (resetFilters [''ACD'', ''BPRD''] 2020 2021 app_init) = Map.empty
   \<and> yearMin (activeFilters (initializeYearFilters app_graph)) = 2020
   \<and> yearMax (activeFilters (initializeYearFilters app_graph)) = 2021
   \<and> localStorage (initializeYearFilters app_graph) ''filterState'' = None"
proof -
  let ?a = "onDepartmentFilterChange ''ACD'' True app_graph"
  have r: "filterStateRecord (activeFilters ?a)
     = [(''departments'', JArray [JString ''ACD'']), (''yearMin'', JNumber 2000),
        (''yearMax'', JNumber 2025), (''showCyclesOnly'', JBool False),
        (''showLabels'', JBool False), (''showIsolated'', JBool True)]"
    by (simp add: onDepartmentFilterChange_def saveFilterState_def runApplyFilters_def
        filterStateRecord_def app_graph_def app_init_def activeFilters_init_def set_add_def Let_def)
  have c: "cy_instance ?a \<noteq> None"
    by (simp add: onDepartmentFilterChange_def saveFilterState_def runApplyFilters_def
        applyFilters_def app_graph_def Let_def)
  have n: "cy_instance app_init = None" "localStorage app_init = Map.empty"
       "localStorage app_graph = Map.empty"
    by (simp_all add: app_init_def app_graph_def)
  have y: "yearMin (activeFilters (initializeYearFilters app_graph)) = 2020"
       "yearMax (activeFilters (initializeYearFilters app_graph)) = 2021"
    by (simp_all add: initializeYearFilters_def app_graph_def cy_three_def mkCyNode_def Let_def)
  from saveFilterState_on_change [of "''ACD''" True app_graph]
  have 1: "localStorage ?a ''filterState'' = Some (filterStateRecord (activeFilters ?a))" by simp
  from saveFilterState_on_change [of _ _ ?a _ _ _ _ _ _ "[''ACD'', ''BPRD'']" 2020 2021] c
  have 2: "localStorage (resetFilters [''ACD'', ''BPRD''] 2020 2021 ?a) ''filterState'' = None"
    by (auto split: option.splits)
  from saveFilterState_on_change [of _ _ app_init _ _ _ _ _ _ "[''ACD'', ''BPRD'']" 2020 2021] n
  have 3: "localStorage (resetFilters [''ACD'', ''BPRD''] 2020 2021 app_init) = Map.empty"
    by simp
  from saveFilterState_on_change [of _ _ app_graph] n
  have 4: "localStorage (initializeYearFilters app_graph) ''filterState'' = None" by simp
  from 1 2 3 4 r y show ?thesis by simp
qed

text \<open>
  C9 as stated fails: a search input changes the filter state and nothing is written,
  and the record written by the next change has no field \<open>searchQuery\<close>.
\<close>

theorem saveFilterState_search_counterexample:
  "searchQuery (activeFilters app_init) = []
   \<and> searchQuery (activeFilters (onSearchInput ''Bank'' app_init)) = ''bank''
   \<and> localStorage (onSearchInput ''Bank'' app_init) ''filterState'' = None
   \<and> map_option (map fst)
        (localStorage (onDisplayOptionChange ShowLabels True (onSearchInput ''Bank'' app_init)) ''filterState'')
      = Some [''departments'', ''yearMin'', ''yearMax'', ''showCyclesOnly'', ''showLabels'', ''showIsolated'']"
  by code_simp

section \<open>Properties of the graph builder\<close>

lemma mapHas_iff: "mapHas nodeMap i = (i \<in> n_id ` set nodeMap)"
  by (auto simp: mapHas_def mapGet_def find_None_iff)

lemma mapHas_resolveTarget:
  "mapHas nodeMap (resolveTarget nodeMap n2i t) =
     (mapHas nodeMap t \<or> (case n2i t of None \<Rightarrow> False | Some i \<Rightarrow> mapHas nodeMap i))"
  by (auto simp: resolveTarget_def split: option.splits)

lemma validateEdges_step_cases:
  "validateEdges_step nodeMap n2i e acc =
     (if resolvable nodeMap n2i e
      then (fst acc @ [\<lparr> e_source = e_source e, e_target = resolveTarget nodeMap n2i (e_target e),
                          e_refType = e_refType e, e_refTitle = e_refTitle e, e_refUrl = e_refUrl e,
                          e_id = ''edge_'' @ e_source e @ ''_'' @ resolveTarget nodeMap n2i (e_target e)
                                 @ ''_'' @ showNat (length (fst acc)) \<rparr>], snd acc)
      else (fst acc, snd acc + 1))"
  by (simp add: validateEdges_step_def resolvable_def mapHas_resolveTarget Let_def)

lemma validateEdges_fold_count:
  "snd (fold (validateEdges_step nodeMap n2i) edges acc)
     = snd acc + length (filter (\<lambda>e. \<not> resolvable nodeMap n2i e) edges)"
  by (induction edges arbitrary: acc) (simp_all add: validateEdges_step_cases)

lemma validateEdges_fold_length:
  "length (fst (fold (validateEdges_step nodeMap n2i) edges acc))
     = length (fst acc) + length (filter (resolvable nodeMap n2i) edges)"
  by (induction edges arbitrary: acc) (simp_all add: validateEdges_step_cases)

lemma validateEdges_fold_endpoints:
  "\<forall>v \<in> set (fst acc). mapHas nodeMap (e_source v) \<and> mapHas nodeMap (e_target v) \<Longrightarrow>
   \<forall>v \<in> set (fst (fold (validateEdges_step nodeMap n2i) edges acc)).
      mapHas nodeMap (e_source v) \<and> mapHas nodeMap (e_target v)"
proof (induction edges arbitrary: acc)
  case Nil
  then show ?case by simp
next
  case (Cons e es)
  have "\<forall>v \<in> set (fst (validateEdges_step nodeMap n2i e acc)).
          mapHas nodeMap (e_source v) \<and> mapHas nodeMap (e_target v)"
    using Cons.prems
    by (auto simp: validateEdges_step_cases resolvable_def mapHas_resolveTarget)
  from Cons.IH [OF this] show ?case by simp
qed

text \<open>
  C7. Of \<open>N\<close> edges, \<open>M\<close> of which cannot be resolved, \<open>validateEdges\<close> returns
  \<open>N - M\<close> edges, each with its source and its target among the ids of the node map;
  the orphan count is \<open>M\<close>, and it is written to the console when it is positive. The
  function has no failing branch.
\<close>

theorem validateEdges_accounting:
  "length (validEdges (validateEdges edges nodeMap n2i))
     = length edges - length (filter (\<lambda>e. \<not> resolvable nodeMap n2i e) edges)
   \<and> orphanedCount (validateEdges edges nodeMap n2i)
     = length (filter (\<lambda>e. \<not> resolvable nodeMap n2i e) edges)
   \<and> (\<forall>v \<in> set (validEdges (validateEdges edges nodeMap n2i)).
        e_source v \<in> n_id ` set nodeMap \<and> e_target v \<in> n_id ` set nodeMap)
   \<and> console (validateEdges edges nodeMap n2i)
     = (if length (filter (\<lambda>e. \<not> resolvable nodeMap n2i e) edges) > 0
        then [showNat (length (filter (\<lambda>e. \<not> resolvable nodeMap n2i e) edges))
              @ '' orphaned references (target not found)'']
        else [])"
proof -
  let ?acc = "fold (validateEdges_step nodeMap n2i) edges ([], 0)"
  let ?M = "length (filter (\<lambda>e. \<not> resolvable nodeMap n2i e) edges)"
  have n: "length (filter (resolvable nodeMap n2i) edges) + ?M = length edges"
    by (rule sum_length_filter_compl)
  have c: "snd ?acc = ?M"
    by (simp add: validateEdges_fold_count)
  have l: "length (fst ?acc) = length edges - ?M"
    using n by (simp add: validateEdges_fold_length)
  have e: "\<forall>v \<in> set (fst ?acc). mapHas nodeMap (e_source v) \<and> mapHas nodeMap (e_target v)"
    by (rule validateEdges_fold_endpoints) simp
  show ?thesis
    using c l e by (simp add: validateEdges_def Let_def mapHas_iff)
qed


text \<open>
  A property of the builder state that pushing an edge, pushing a pdf or web node and
  counting a call of \<open>Math.random()\<close> keep is kept by \<open>extractReferences\<close>.
\<close>

lemma attachmentId_invariant:
  assumes "\<And>st. Q st \<Longrightarrow> Q (st\<lparr> b_random := Suc (b_random st) \<rparr>)" and "Q st"
  shows "Q (snd (attachmentId rnd prefix url title st))"
  using assms by (simp add: attachmentId_def)

lemma extractReferences_invariant:
  assumes pe: "\<And>e st. Q st \<Longrightarrow> Q (pushEdge e st)"
    and pn: "\<And>i t d u ty dep st. ty \<noteq> ''circular'' \<Longrightarrow> Q st \<Longrightarrow> Q (pushNode (attachmentNode i t d u ty dep) st)"
    and pr: "\<And>st. Q st \<Longrightarrow> Q (st\<lparr> b_random := Suc (b_random st) \<rparr>)"
  shows "Q st0 \<Longrightarrow> Q (extractReferences rnd references sourceId department depth st0)"
proof (induction rnd references sourceId department depth st0 rule: extractReferences.induct)
  case (1 rnd references sourceId department depth st0)
  show ?case
  proof (cases "10 < depth")
    case True
    with "1.prems" show ?thesis by simp
  next
    case False
    let ?body = "\<lambda>r st. case r of
          RefNull \<Rightarrow> st
        | Ref ty title url nested \<Rightarrow>
            if ty = ''circular'' then
              (let targetId = normalizeTitle title;
                   st1 = (if targetId \<noteq> [] then
                            pushEdge \<lparr> e_source = sourceId, e_target = targetId, e_refType = ''circular'',
                                       e_refTitle = title, e_refUrl = url \<rparr> st
                          else st)
               in case nested of
                    None \<Rightarrow> st1
                  | Some refs \<Rightarrow> extractReferences rnd refs sourceId department (depth + 1) st1)
            else if ty = ''pdf'' then
              (let (pdfId, st1) = attachmentId rnd ''pdf_'' url title st;
                   st2 = pushNode (attachmentNode pdfId title ''PDF Document'' url ''pdf'' department) st1;
                   st3 = pushEdge \<lparr> e_source = sourceId, e_target = pdfId, e_refType = ''pdf'',
                                    e_refTitle = orElse title ''PDF Document'', e_refUrl = url \<rparr> st2
               in case nested of
                    None \<Rightarrow> st3
                  | Some refs \<Rightarrow> extractReferences rnd refs pdfId department (depth + 1) st3)
            else if ty = ''web'' then
              (let (webId, st1) = attachmentId rnd ''web_'' url title st;
                   st2 = pushNode (attachmentNode webId title ''Web Link'' url ''web'' department) st1
               in pushEdge \<lparr> e_source = sourceId, e_target = webId, e_refType = ''web'',
                             e_refTitle = orElse title ''Web Link'', e_refUrl = url \<rparr> st2)
            else st"
    have step: "Q (?body r st)" if rin: "r \<in> set references" and q: "Q st" for r st
    proof (cases r)
      case RefNull
      with q show ?thesis by simp
    next
      case (Ref ty title url nested)
      consider (circ) "ty = ''circular''" | (pdf) "ty \<noteq> ''circular''" "ty = ''pdf''"
        | (web) "ty \<noteq> ''circular''" "ty \<noteq> ''pdf''" "ty = ''web''"
        | (other) "ty \<noteq> ''circular''" "ty \<noteq> ''pdf''" "ty \<noteq> ''web''"
        by blast
      then show ?thesis
      proof cases
        case circ
        let ?st1 = "if normalizeTitle title \<noteq> [] then
                      pushEdge \<lparr> e_source = sourceId, e_target = normalizeTitle title, e_refType = ''circular'',
                                 e_refTitle = title, e_refUrl = url \<rparr> st
                    else st"
        have q1: "Q ?st1" using q pe by simp
        show ?thesis
        proof (cases nested)
          case None
          with Ref circ q1 show ?thesis by (simp add: Let_def)
        next
          case (Some refs)
          have "Q (extractReferences rnd refs sourceId department (depth + 1) ?st1)"
            using "1.IH"(1) [OF False rin Ref circ refl refl Some q1] .
          with Ref circ Some show ?thesis by (simp add: Let_def)
        qed
      next
        case pdf
        let ?a = "attachmentId rnd ''pdf_'' url title st"
        let ?st2 = "pushNode (attachmentNode (fst ?a) title ''PDF Document'' url ''pdf'' department) (snd ?a)"
        let ?st3 = "pushEdge \<lparr> e_source = sourceId, e_target = fst ?a, e_refType = ''pdf'',
                                e_refTitle = orElse title ''PDF Document'', e_refUrl = url \<rparr> ?st2"
        have "Q (snd ?a)" using pr q by (rule attachmentId_invariant)
        then have "Q ?st2" using pn by simp
        then have q3: "Q ?st3" using pe by simp
        show ?thesis
        proof (cases nested)
          case None
          with Ref pdf q3 show ?thesis by (simp add: Let_def case_prod_beta)
        next
          case (Some refs)
          have "Q (extractReferences rnd refs (fst ?a) department (depth + 1) ?st3)"
            using "1.IH"(2) [OF False rin Ref pdf(1) pdf(2) refl prod.collapse refl refl Some q3] .
          with Ref pdf Some show ?thesis by (simp add: Let_def case_prod_beta)
        qed
      next
        case web
        let ?a = "attachmentId rnd ''web_'' url title st"
        have "Q (snd ?a)" using pr q by (rule attachmentId_invariant)
        then have "Q (pushNode (attachmentNode (fst ?a) title ''Web Link'' url ''web'' department) (snd ?a))"
          using pn by simp
        then have "Q (pushEdge \<lparr> e_source = sourceId, e_target = fst ?a, e_refType = ''web'',
                                e_refTitle = orElse title ''Web Link'', e_refUrl = url \<rparr>
                   (pushNode (attachmentNode (fst ?a) title ''Web Link'' url ''web'' department) (snd ?a)))"
          using pe by simp
        with Ref web show ?thesis by (simp add: Let_def case_prod_beta)
      next
        case other
        with Ref q show ?thesis by simp
      qed
    qed
    have "Q (fold ?body references st0)"
      by (rule fold_invariant [where Q = "\<lambda>r. r \<in> set references" and P = Q])
         (use "1.prems" step in auto)
    with False show ?thesis by simp
  qed
qed

lemma extractReferencesOpt_invariant:
  assumes "\<And>e st. Q st \<Longrightarrow> Q (pushEdge e st)"
    and "\<And>i t d u ty dep st. ty \<noteq> ''circular'' \<Longrightarrow> Q st \<Longrightarrow> Q (pushNode (attachmentNode i t d u ty dep) st)"
    and "\<And>st. Q st \<Longrightarrow> Q (st\<lparr> b_random := Suc (b_random st) \<rparr>)"
    and "Q st0"
  shows "Q (extractReferencesOpt rnd references sourceId department st0)"
proof (cases references)
  case None
  with assms(4) show ?thesis by (simp add: extractReferencesOpt_def)
next
  case (Some refs)
  have "Q (extractReferences rnd refs sourceId department 0 st0)"
    by (rule extractReferences_invariant [where Q = Q, OF assms])
  with Some show ?thesis by (simp add: extractReferencesOpt_def)
qed


lemma processCircular_invariant:
  assumes pe: "\<And>e st. Q st \<Longrightarrow> Q (pushEdge e st)"
    and pn: "\<And>i t d u ty dep st. ty \<noteq> ''circular'' \<Longrightarrow> Q st \<Longrightarrow> Q (pushNode (attachmentNode i t d u ty dep) st)"
    and pr: "\<And>st. Q st \<Longrightarrow> Q (st\<lparr> b_random := Suc (b_random st) \<rparr>)"
    and reg: "\<And>n st. n_type n = ''circular'' \<Longrightarrow> n_refCount n = 0 \<Longrightarrow> Q st \<Longrightarrow>
        Q ((pushNode n st)\<lparr> nodeIdToNormalizedId :=
              (nodeIdToNormalizedId (pushNode n st))(normalizeTitle (n_id n) \<mapsto> n_id n) \<rparr>)"
    and q: "Q st"
  shows "Q (processCircular rnd circ department st)"
proof (cases circ)
  case None
  with q show ?thesis by (simp add: processCircular_def)
next
  case (Some c)
  define nodeId where "nodeId = (if c_ID c \<noteq> [] then c_ID c
                 else generateNodeId [] (c_url c) (c_title c) (rnd (b_random st)))"
  define st1 where "st1 = (if c_ID c = [] \<and> c_url c = [] \<and> c_title c = []
              then st\<lparr> b_random := Suc (b_random st) \<rparr> else st)"
  define n where "n = \<lparr> n_id = nodeId, n_label = nodeId, n_title = orElse (c_title c) nodeId,
              n_date = Some (c_date c), n_year = extractYearFromDate (c_date c),
              n_department = department, n_url = c_url c, n_content = Some (c_content c),
              n_type = ''circular'', n_refCount = 0, n_fromCache = False \<rparr>"
  define st3 where "st3 = (pushNode n st1)\<lparr> nodeIdToNormalizedId :=
                 (nodeIdToNormalizedId (pushNode n st1))(normalizeTitle nodeId \<mapsto> nodeId) \<rparr>"
  have eq: "processCircular rnd circ department st
              = extractReferencesOpt rnd (c_references c) nodeId department st3"
    unfolding processCircular_def Some nodeId_def st1_def n_def st3_def
    by (simp only: Let_def option.case)
  have n: "n_type n = ''circular''" "n_refCount n = 0" "n_id n = nodeId"
    by (simp_all add: n_def)
  have "Q st1" unfolding st1_def using q pr by simp
  from reg [OF n(1) n(2) this] have q3: "Q st3" unfolding st3_def n(3) .
  have "Q (extractReferencesOpt rnd (c_references c) nodeId department st3)"
    by (rule extractReferencesOpt_invariant [where Q = Q, OF pe pn pr q3])
  with eq show ?thesis by simp
qed

lemma fold_keeps:
  assumes "\<And>x s. Q s \<Longrightarrow> Q (f x s)" and "Q s"
  shows "Q (fold f xs s)"
  using assms(2) by (induction xs arbitrary: s) (simp_all add: assms(1))

lemma extractCircularsFromMainFile_invariant:
  assumes pe: "\<And>e st. Q st \<Longrightarrow> Q (pushEdge e st)"
    and pn: "\<And>i t d u ty dep st. ty \<noteq> ''circular'' \<Longrightarrow> Q st \<Longrightarrow> Q (pushNode (attachmentNode i t d u ty dep) st)"
    and pr: "\<And>st. Q st \<Longrightarrow> Q (st\<lparr> b_random := Suc (b_random st) \<rparr>)"
    and reg: "\<And>n st. n_type n = ''circular'' \<Longrightarrow> n_refCount n = 0 \<Longrightarrow> Q st \<Longrightarrow>
        Q ((pushNode n st)\<lparr> nodeIdToNormalizedId :=
              (nodeIdToNormalizedId (pushNode n st))(normalizeTitle (n_id n) \<mapsto> n_id n) \<rparr>)"
    and q: "Q st"
  shows "Q (extractCircularsFromMainFile rnd fd st)"
proof (cases "fd_years fd")
  case None
  with q show ?thesis by (simp add: extractCircularsFromMainFile_def)
next
  case (Some years)
  have pc: "Q (processCircular rnd circ dep s)" if "Q s" for circ dep s
    by (rule processCircular_invariant [where Q = Q, OF pe pn pr reg that])
  have inner: "Q (fold (\<lambda>circ s. processCircular rnd circ dep s) cs s)" if "Q s" for cs dep s
    by (rule fold_keeps [where Q = Q, OF pc that])
  have "Q (fold (\<lambda>(year, yd) st1.
                  fold (\<lambda>letter s. processCircular rnd letter (orElse (fd_department fd) ''Other'') s) (circular_letters yd)
                    (fold (\<lambda>circ s. processCircular rnd circ (orElse (fd_department fd) ''Other'') s) (circulars yd) st1))
               years st)"
    by (rule fold_keeps [where Q = Q]) (auto intro: inner q)
  with Some show ?thesis by (simp add: extractCircularsFromMainFile_def Let_def)
qed

lemma extractCircularsFromCache_invariant:
  assumes pe: "\<And>e st. Q st \<Longrightarrow> Q (pushEdge e st)"
    and pn: "\<And>i t d u ty dep st. ty \<noteq> ''circular'' \<Longrightarrow> Q st \<Longrightarrow> Q (pushNode (attachmentNode i t d u ty dep) st)"
    and pr: "\<And>st. Q st \<Longrightarrow> Q (st\<lparr> b_random := Suc (b_random st) \<rparr>)"
    and reg: "\<And>n st. n_type n = ''circular'' \<Longrightarrow> n_refCount n = 0 \<Longrightarrow> Q st \<Longrightarrow>
        Q ((pushNode n st)\<lparr> nodeIdToNormalizedId :=
              (nodeIdToNormalizedId (pushNode n st))(normalizeTitle (n_id n) \<mapsto> n_id n) \<rparr>)"
    and q: "Q st"
  shows "Q (extractCircularsFromCache rnd cacheData st)"
  unfolding extractCircularsFromCache_def
proof (rule fold_keeps [where Q = Q])
  show "Q st" by (rule q)
next
  fix x :: "string \<times> cacheEntry" and s
  assume qs: "Q s"
  obtain circularId circularData where x: "x = (circularId, circularData)" by (cases x)
  let ?n = "\<lparr> n_id = circularId, n_label = circularId, n_title = circularId, n_date = Some [],
              n_year = None, n_department = extractDepartmentFromId circularId, n_url = [],
              n_content = Some (cc_content circularData), n_type = ''circular'',
              n_refCount = 0, n_fromCache = True \<rparr>"
  let ?st2 = "(pushNode ?n s)\<lparr> nodeIdToNormalizedId :=
                 (nodeIdToNormalizedId (pushNode ?n s))(normalizeTitle circularId \<mapsto> circularId) \<rparr>"
  have q2: "Q ?st2" using reg [of ?n s] qs by simp
  have "Q (extractReferencesOpt rnd (cc_references circularData) circularId
                  (extractDepartmentFromId circularId) ?st2)"
    by (rule extractReferencesOpt_invariant [where Q = Q, OF pe pn pr q2])
  with x show "Q ((case x of (circularId, circularData) \<Rightarrow> \<lambda>st0.
        (let department = extractDepartmentFromId circularId;
             n = \<lparr> n_id = circularId, n_label = circularId, n_title = circularId, n_date = Some [],
                   n_year = None, n_department = department, n_url = [],
                   n_content = Some (cc_content circularData), n_type = ''circular'',
                   n_refCount = 0, n_fromCache = True \<rparr>;
             st1 = pushNode n st0;
             st2 = st1\<lparr> nodeIdToNormalizedId := (nodeIdToNormalizedId st1)(normalizeTitle circularId \<mapsto> circularId) \<rparr>
         in extractReferencesOpt rnd (cc_references circularData) circularId department st2)) s)"
    by (simp add: Let_def)
qed

lemma extractAll_invariant:
  assumes pe: "\<And>e st. Q st \<Longrightarrow> Q (pushEdge e st)"
    and pn: "\<And>i t d u ty dep st. ty \<noteq> ''circular'' \<Longrightarrow> Q st \<Longrightarrow> Q (pushNode (attachmentNode i t d u ty dep) st)"
    and pr: "\<And>st. Q st \<Longrightarrow> Q (st\<lparr> b_random := Suc (b_random st) \<rparr>)"
    and reg: "\<And>n st. n_type n = ''circular'' \<Longrightarrow> n_refCount n = 0 \<Longrightarrow> Q st \<Longrightarrow>
        Q ((pushNode n st)\<lparr> nodeIdToNormalizedId :=
              (nodeIdToNormalizedId (pushNode n st))(normalizeTitle (n_id n) \<mapsto> n_id n) \<rparr>)"
    and q: "Q \<lparr> b_nodes = [], b_edges = [], nodeIdToNormalizedId = Map.empty, b_random = 0 \<rparr>"
  shows "Q (extractAll rnd loaded)"
proof -
  let ?st0 = "\<lparr> b_nodes = [], b_edges = [], nodeIdToNormalizedId = Map.empty, b_random = 0 \<rparr>"
  have mf: "Q (extractCircularsFromMainFile rnd fd s)" if "Q s" for fd s
    by (rule extractCircularsFromMainFile_invariant [where Q = Q, OF pe pn pr reg that])
  have q1: "Q (fold (extractCircularsFromMainFile rnd) (mainFiles loaded) ?st0)"
    by (rule fold_keeps [where Q = Q, OF mf q])
  show ?thesis
  proof (cases "cache loaded")
    case None
    with q1 show ?thesis by (simp add: extractAll_def)
  next
    case (Some c)
    have "Q (extractCircularsFromCache rnd c (fold (extractCircularsFromMainFile rnd) (mainFiles loaded) ?st0))"
      by (rule extractCircularsFromCache_invariant [where Q = Q, OF pe pn pr reg q1])
    with Some show ?thesis by (simp add: extractAll_def)
  qed
qed

text \<open>Every node is created with the reference count 0.\<close>

lemma extractAll_refCount:
  "\<forall>n \<in> set (b_nodes (extractAll rnd loaded)). n_refCount n = 0"
proof (rule extractAll_invariant [where Q = "\<lambda>st. \<forall>n \<in> set (b_nodes st). n_refCount n = 0"])
  show "\<And>e st. \<forall>n\<in>set (b_nodes st). n_refCount n = 0 \<Longrightarrow>
            \<forall>n\<in>set (b_nodes (pushEdge e st)). n_refCount n = 0"
    by (simp add: pushEdge_def)
  show "\<And>i t d u ty dep st. ty \<noteq> ''circular'' \<Longrightarrow> \<forall>n\<in>set (b_nodes st). n_refCount n = 0 \<Longrightarrow>
            \<forall>n\<in>set (b_nodes (pushNode (attachmentNode i t d u ty dep) st)). n_refCount n = 0"
    by (simp add: pushNode_def attachmentNode_def)
  show "\<And>st. \<forall>n\<in>set (b_nodes st). n_refCount n = 0 \<Longrightarrow>
            \<forall>n\<in>set (b_nodes (st\<lparr>b_random := Suc (b_random st)\<rparr>)). n_refCount n = 0"
    by simp
  show "\<And>n st. n_type n = ''circular'' \<Longrightarrow> n_refCount n = 0 \<Longrightarrow> \<forall>n\<in>set (b_nodes st). n_refCount n = 0 \<Longrightarrow>
            \<forall>m\<in>set (b_nodes ((pushNode n st)\<lparr>nodeIdToNormalizedId :=
                 (nodeIdToNormalizedId (pushNode n st))(normalizeTitle (n_id n) \<mapsto> n_id n)\<rparr>)). n_refCount m = 0"
    by (simp add: pushNode_def)
  show "\<forall>n\<in>set (b_nodes \<lparr>b_nodes = [], b_edges = [], nodeIdToNormalizedId = Map.empty, b_random = 0\<rparr>).
            n_refCount n = 0"
    by simp
qed

text \<open>
  The table \<open>nodeIdToNormalizedId\<close> holds, for every key, the id of the node that was
  registered last under it.
\<close>

lemma registeredAs_snoc:
  "registeredAs k (ns @ [n]) =
     (if n_type n = ''circular'' \<and> normalizeTitle (n_id n) = k then registeredAs k ns @ [n]
      else registeredAs k ns)"
  by (simp add: registeredAs_def)

lemma extractAll_table:
  "nodeIdToNormalizedId (extractAll rnd loaded) k =
     (if registeredAs k (b_nodes (extractAll rnd loaded)) = [] then None
      else Some (n_id (last (registeredAs k (b_nodes (extractAll rnd loaded))))))"
proof -
  let ?Q = "\<lambda>st. \<forall>k. nodeIdToNormalizedId st k =
     (if registeredAs k (b_nodes st) = [] then None else Some (n_id (last (registeredAs k (b_nodes st)))))"
  have "?Q (extractAll rnd loaded)"
  proof (rule extractAll_invariant [where Q = ?Q])
    show "\<And>e st. ?Q st \<Longrightarrow> ?Q (pushEdge e st)"
      by (simp add: pushEdge_def)
    show "\<And>i t d u ty dep st. ty \<noteq> ''circular'' \<Longrightarrow> ?Q st \<Longrightarrow> ?Q (pushNode (attachmentNode i t d u ty dep) st)"
      by (simp add: pushNode_def attachmentNode_def registeredAs_snoc)
    show "\<And>st. ?Q st \<Longrightarrow> ?Q (st\<lparr>b_random := Suc (b_random st)\<rparr>)"
      by simp
    show "\<And>n st. n_type n = ''circular'' \<Longrightarrow> n_refCount n = 0 \<Longrightarrow> ?Q st \<Longrightarrow>
            ?Q ((pushNode n st)\<lparr>nodeIdToNormalizedId :=
                 (nodeIdToNormalizedId (pushNode n st))(normalizeTitle (n_id n) \<mapsto> n_id n)\<rparr>)"
      by (simp add: pushNode_def registeredAs_snoc)
    show "?Q \<lparr>b_nodes = [], b_edges = [], nodeIdToNormalizedId = Map.empty, b_random = 0\<rparr>"
      by (simp add: registeredAs_def)
  qed
  then show ?thesis by blast
qed


lemma mapGet_None: "mapGet nodeMap i = None \<Longrightarrow> i \<notin> n_id ` set nodeMap"
  by (auto simp: mapGet_def find_None_iff)

lemma mapGet_Some: "mapGet nodeMap i = Some m \<Longrightarrow> m \<in> set nodeMap \<and> n_id m = i"
  by (auto simp: mapGet_def find_Some_iff)

lemma mapUpdate_ids: "(\<And>m. n_id (f m) = n_id m) \<Longrightarrow> map n_id (mapUpdate f i nodeMap) = map n_id nodeMap"
  by (induction nodeMap) simp_all

lemma mapUpdate_set: "set (mapUpdate f i nodeMap) \<subseteq> set nodeMap \<union> f ` set nodeMap"
  by (induction nodeMap) auto

lemma mergeNode_keeps:
  assumes "mergeNode existingNode n = Inr m"
  shows "n_id m = n_id existingNode \<and> n_refCount m = n_refCount existingNode
     \<and> n_label m = n_label existingNode \<and> n_department m = n_department existingNode
     \<and> n_type m = n_type existingNode"
proof -
  let ?same = "\<lambda>a b. n_id a = n_id b \<and> n_refCount a = n_refCount b \<and> n_label a = n_label b
     \<and> n_department a = n_department b \<and> n_type a = n_type b"
  define e1 where "e1 = (if n_title n \<noteq> [] \<and> n_title existingNode = []
                then existingNode\<lparr> n_title := n_title n \<rparr> else existingNode)"
  define e2 where "e2 = (if truthyString (n_date n) \<and> \<not> truthyString (n_date e1)
                then e1\<lparr> n_date := n_date n \<rparr> else e1)"
  define e3 where "e3 = (if truthyYear (n_year n) \<and> \<not> truthyYear (n_year e2)
                then e2\<lparr> n_year := n_year n \<rparr> else e2)"
  define e4 where "e4 = (if n_url n \<noteq> [] \<and> n_url e3 = [] then e3\<lparr> n_url := n_url n \<rparr> else e3)"
  define e5 where "e5 = (case n_content n of
                  None \<Rightarrow> Inr e4
                | Some c \<Rightarrow>
                    if length c > 0 then
                      (case n_content e4 of
                         None \<Rightarrow> Inl TypeError
                       | Some ec \<Rightarrow> if length ec = 0 then Inr (e4\<lparr> n_content := Some c \<rparr>) else Inr e4)
                    else Inr e4)"
  have eq: "mergeNode existingNode n = (case e5 of
           Inl err \<Rightarrow> Inl err
         | Inr e \<Rightarrow> Inr (if \<not> n_fromCache e then e\<lparr> n_fromCache := n_fromCache n \<rparr> else e))"
    unfolding mergeNode_def e1_def e2_def e3_def e4_def e5_def by (simp only: Let_def)
  have k1: "?same e1 existingNode" by (simp add: e1_def)
  have k2: "?same e2 e1" by (simp add: e2_def)
  have k3: "?same e3 e2" by (simp add: e3_def)
  have k4: "?same e4 e3" by (simp add: e4_def)
  have k5: "?same e e4" if "e5 = Inr e" for e
    using that by (auto simp: e5_def split: option.splits if_splits)
  from assms eq obtain e where e: "e5 = Inr e"
      and m: "m = (if \<not> n_fromCache e then e\<lparr> n_fromCache := n_fromCache n \<rparr> else e)"
    by (cases e5) auto
  have "?same m e" by (simp add: m)
  with k5 [OF e] k4 k3 k2 k1 show ?thesis by simp
qed

text \<open>
  \<open>deduplicateNodes\<close> leaves one node for each id, and no node with a reference count
  other than those it was given.
\<close>

lemma deduplicateNodes_loop_distinct:
  "deduplicateNodes_loop ns nodeMap = Inr nodeMap' \<Longrightarrow> distinct (map n_id nodeMap) \<Longrightarrow>
     (\<forall>n \<in> set ns \<union> set nodeMap. n_refCount n = 0) \<Longrightarrow>
     distinct (map n_id nodeMap') \<and> (\<forall>n \<in> set nodeMap'. n_refCount n = 0)"
proof (induction ns arbitrary: nodeMap)
  case Nil
  then show ?case by simp
next
  case (Cons n ns)
  show ?case
  proof (cases "mapGet nodeMap (n_id n)")
    case None
    then have "n_id n \<notin> n_id ` set nodeMap" by (rule mapGet_None)
    with Cons.prems(2) have d: "distinct (map n_id (nodeMap @ [n]))" by simp
    have r: "\<forall>m \<in> set ns \<union> set (nodeMap @ [n]). n_refCount m = 0"
      using Cons.prems(3) by auto
    from Cons.prems(1) None have "deduplicateNodes_loop ns (nodeMap @ [n]) = Inr nodeMap'" by simp
    from Cons.IH [OF this d r] show ?thesis .
  next
    case (Some existingNode)
    then have ex: "existingNode \<in> set nodeMap" "n_id existingNode = n_id n"
      using mapGet_Some by blast+
    show ?thesis
    proof (cases "\<not> n_fromCache n \<or> n_fromCache existingNode")
      case False
      with Cons.prems(1) Some have "deduplicateNodes_loop ns nodeMap = Inr nodeMap'" by simp
      moreover have "\<forall>m \<in> set ns \<union> set nodeMap. n_refCount m = 0" using Cons.prems(3) by auto
      ultimately show ?thesis using Cons.IH Cons.prems(2) by blast
    next
      case True
      with Cons.prems(1) Some obtain merged where
        m: "mergeNode existingNode n = Inr merged"
        and l: "deduplicateNodes_loop ns (mapUpdate (\<lambda>_. merged) (n_id n) nodeMap) = Inr nodeMap'"
        by (auto split: sum.splits)
      from mergeNode_keeps [OF m] ex Cons.prems(3)
      have mk: "n_id merged = n_id n" "n_refCount merged = 0" by auto
      have ids: "map n_id (mapUpdate (\<lambda>_. merged) (n_id n) nodeMap) = map n_id nodeMap"
        using mk(1) by (induction nodeMap) auto
      have d: "distinct (map n_id (mapUpdate (\<lambda>_. merged) (n_id n) nodeMap))"
        using ids Cons.prems(2) by simp
      have "set (mapUpdate (\<lambda>_. merged) (n_id n) nodeMap) \<subseteq> set nodeMap \<union> {merged}"
        using mapUpdate_set [of "\<lambda>_. merged" "n_id n" nodeMap] by auto
      then have r: "\<forall>m \<in> set ns \<union> set (mapUpdate (\<lambda>_. merged) (n_id n) nodeMap). n_refCount m = 0"
        using Cons.prems(3) mk(2) by auto
      from Cons.IH [OF l d r] show ?thesis .
    qed
  qed
qed

lemma mapUpdate_distinct:
  "distinct (map n_id nodeMap) \<Longrightarrow>
     mapUpdate f i nodeMap = map (\<lambda>n. if n_id n = i then f n else n) nodeMap"
proof (induction nodeMap)
  case Nil
  then show ?case by simp
next
  case (Cons m ms)
  show ?case
  proof (cases "n_id m = i")
    case True
    with Cons.prems have "\<forall>n \<in> set ms. n_id n \<noteq> i" by (force simp: image_iff)
    then have "map (\<lambda>n. if n_id n = i then f n else n) ms = ms" by (simp add: map_idI)
    with True show ?thesis by simp
  next
    case False
    with Cons show ?thesis by simp
  qed
qed

text \<open>\<open>calculateReferenceCounts\<close> adds to every node the number of edges that target it.\<close>

lemma calculateReferenceCounts_map:
  "distinct (map n_id nodeMap) \<Longrightarrow>
     calculateReferenceCounts nodeMap es =
       map (\<lambda>n. n\<lparr> n_refCount := n_refCount n + length (filter (\<lambda>e. e_target e = n_id n) es) \<rparr>) nodeMap"
proof (induction es arbitrary: nodeMap)
  case Nil
  then show ?case by (simp add: calculateReferenceCounts_def)
next
  case (Cons e es)
  let ?inc = "\<lambda>targetNode. targetNode\<lparr> n_refCount := n_refCount targetNode + 1 \<rparr>"
  let ?nm = "mapUpdate ?inc (e_target e) nodeMap"
  have nm: "?nm = map (\<lambda>n. if n_id n = e_target e then ?inc n else n) nodeMap"
    using Cons.prems by (rule mapUpdate_distinct)
  then have "map n_id ?nm = map n_id nodeMap" by (simp add: o_def if_distrib)
  with Cons.prems have d: "distinct (map n_id ?nm)" by simp
  have "calculateReferenceCounts nodeMap (e # es) = calculateReferenceCounts ?nm es"
    by (simp add: calculateReferenceCounts_def)
  also have "\<dots> = map (\<lambda>n. n\<lparr> n_refCount := n_refCount n + length (filter (\<lambda>e. e_target e = n_id n) es) \<rparr>) ?nm"
    using d by (rule Cons.IH)
  also have "\<dots> = map (\<lambda>n. n\<lparr> n_refCount := n_refCount n + length (filter (\<lambda>e. e_target e = n_id n) (e # es)) \<rparr>) nodeMap"
    unfolding nm by auto
  finally show ?case .
qed

lemma toCyNode_fields: "n_id (toCyNode n) = n_id n" "n_refCount (toCyNode n) = n_refCount n"
  by (simp_all add: toCyNode_def node.defs)

lemma toCyEdge_fields: "e_target (toCyEdge e) = e_target e" "e_source (toCyEdge e) = e_source e"
  by (simp_all add: toCyEdge_def vedge.defs edge.defs)

text \<open>
  C8. In the graph that \<open>buildGraph\<close> returns, the reference count of every node is
  the number of validated edges whose target is that node, whatever the input holds.
\<close>

theorem buildGraph_refCount:
  assumes "buildGraph rnd loaded = Inr g"
  shows "map n_refCount (g_nodes g)
           = map (\<lambda>n. length (filter (\<lambda>e. e_target e = n_id n) (g_edges g))) (g_nodes g)"
proof -
  let ?st = "extractAll rnd loaded"
  from assms obtain nodeMap0 where dd: "deduplicateNodes (b_nodes ?st) = Inr nodeMap0"
    by (auto simp: buildGraph_def Let_def split: sum.splits)
  let ?v = "validateEdges (b_edges ?st) nodeMap0 (nodeIdToNormalizedId ?st)"
  let ?nm = "calculateReferenceCounts nodeMap0 (validEdges ?v)"
  from assms dd have g: "g_nodes g = map toCyNode ?nm" "g_edges g = map toCyEdge (validEdges ?v)"
    by (auto simp: buildGraph_def Let_def)
  have "distinct (map n_id nodeMap0) \<and> (\<forall>n \<in> set nodeMap0. n_refCount n = 0)"
    using dd extractAll_refCount [of rnd loaded]
    by (intro deduplicateNodes_loop_distinct [of "b_nodes ?st" "[]"]) (simp_all add: deduplicateNodes_def)
  then have d: "distinct (map n_id nodeMap0)" and z: "\<forall>n \<in> set nodeMap0. n_refCount n = 0"
    by simp_all
  have c: "?nm = map (\<lambda>n. n\<lparr> n_refCount := n_refCount n
              + length (filter (\<lambda>e. e_target e = n_id n) (validEdges ?v)) \<rparr>) nodeMap0"
    using d by (rule calculateReferenceCounts_map)
  show ?thesis
    unfolding g c using z by (simp add: o_def toCyNode_fields toCyEdge_fields)
qed

theorem buildGraph_refCount_witness:
  "\<not> isl (buildGraph noRandom loaded_collision)
   \<and> map n_id (g_nodes (projr (buildGraph noRandom loaded_collision)))
       = [''ACD Circular No. 01'', ''ACD Circular No. 1'', ''BPRD Circular No. 5'',
          ''https://example.org/annex.pdf'']
   \<and> map e_target (g_edges (projr (buildGraph noRandom loaded_collision)))
       = [''ACD Circular No. 1'', ''https://example.org/annex.pdf'']
   \<and> map n_refCount (g_nodes (projr (buildGraph noRandom loaded_collision))) = [0, 1, 0, 1]"
proof -
  let ?g = "projr (buildGraph noRandom loaded_collision)"
  have r: "\<not> isl (buildGraph noRandom loaded_collision)" by code_simp
  then have "buildGraph noRandom loaded_collision = Inr ?g" by simp
  from buildGraph_refCount [OF this]
  have c: "map n_refCount (g_nodes ?g)
     = map (\<lambda>n. length (filter (\<lambda>e. e_target e = n_id n) (g_edges ?g))) (g_nodes ?g)" .
  have i: "map n_id (g_nodes ?g)
       = [''ACD Circular No. 01'', ''ACD Circular No. 1'', ''BPRD Circular No. 5'',
          ''https://example.org/annex.pdf'']"
    by code_simp
  have e: "map e_target (g_edges ?g) = [''ACD Circular No. 1'', ''https://example.org/annex.pdf'']"
    by code_simp
  have "map (\<lambda>n. length (filter (\<lambda>e. e_target e = n_id n) (g_edges ?g))) (g_nodes ?g) = [0, 1, 0, 1]"
    by code_simp
  with c have "map n_refCount (g_nodes ?g) = [0, 1, 0, 1]" by simp
  with r i e show ?thesis by simp
qed


lemma validateEdges_fold_targets:
  "map e_target (fst (fold (validateEdges_step nodeMap n2i) edges acc))
     = map e_target (fst acc)
       @ map (\<lambda>e. resolveTarget nodeMap n2i (e_target e)) (filter (resolvable nodeMap n2i) edges)"
  by (induction edges arbitrary: acc) (simp_all add: validateEdges_step_cases)

text \<open>
  C4, as the code has it. When several discovered circulars have ids that normalize to
  the same key, the key resolves to the id of the one registered last: a target that is
  not itself a node id is replaced by that id, and the validated edges carry the
  resolved targets.
\<close>

theorem resolveTarget_last_registration:
  assumes "registeredAs k (b_nodes (extractAll rnd loaded)) \<noteq> []"
    and "\<not> mapHas nodeMap k"
  shows "resolveTarget nodeMap (nodeIdToNormalizedId (extractAll rnd loaded)) k
           = n_id (last (registeredAs k (b_nodes (extractAll rnd loaded))))
     \<and> map e_target (validEdges (validateEdges edges nodeMap (nodeIdToNormalizedId (extractAll rnd loaded))))
           = map (\<lambda>e. resolveTarget nodeMap (nodeIdToNormalizedId (extractAll rnd loaded)) (e_target e))
               (filter (resolvable nodeMap (nodeIdToNormalizedId (extractAll rnd loaded))) edges)"
  using assms
  by (simp add: resolveTarget_def extractAll_table validateEdges_def Let_def validateEdges_fold_targets)

lemma collision_registered:
  "map n_id (registeredAs ''acd circular no 1'' (b_nodes (extractAll noRandom loaded_collision)))
     = [''ACD Circular No. 01'', ''ACD Circular No. 1'']"
  by code_simp

theorem resolveTarget_last_registration_witness:
  "registeredAs ''acd circular no 1'' (b_nodes (extractAll noRandom loaded_collision)) \<noteq> []
   \<and> \<not> mapHas (b_nodes (extractAll noRandom loaded_collision)) ''acd circular no 1''
   \<and> resolveTarget (b_nodes (extractAll noRandom loaded_collision))
        (nodeIdToNormalizedId (extractAll noRandom loaded_collision)) ''acd circular no 1''
      = ''ACD Circular No. 1''"
proof -
  let ?regs = "registeredAs ''acd circular no 1'' (b_nodes (extractAll noRandom loaded_collision))"
  have a: "?regs \<noteq> []" using collision_registered by auto
  have b: "\<not> mapHas (b_nodes (extractAll noRandom loaded_collision)) ''acd circular no 1''"
    by code_simp
  have "n_id (last ?regs) = last (map n_id ?regs)" using a by (simp add: last_map)
  then have l: "n_id (last ?regs) = ''ACD Circular No. 1''" by (simp add: collision_registered)
  from resolveTarget_last_registration [OF a b, of "[]"] l a b show ?thesis by simp
qed

text \<open>
  C4 as stated fails: \<open>ACD Circular No. 01\<close> is registered first and
  \<open>ACD Circular No. 1\<close> second under the same key, and the reference titled
  \<open>ACD Circular No. 01\<close> ends at the second.
\<close>

theorem first_registration_counterexample:
  "map n_id (registeredAs ''acd circular no 1'' (b_nodes (extractAll noRandom loaded_collision)))
     = [''ACD Circular No. 01'', ''ACD Circular No. 1'']
   \<and> map (\<lambda>e. (e_refTitle e, e_target e)) (b_edges (extractAll noRandom loaded_collision))
     = [(''ACD Circular No. 01'', ''acd circular no 1''), (''ACD Circular No. 9'', ''acd circular no 9''),
        (''Annexure'', ''https://example.org/annex.pdf'')]
   \<and> map (\<lambda>e. (e_source e, e_refTitle e, e_target e)) (g_edges (projr (buildGraph noRandom loaded_collision)))
     = [(''BPRD Circular No. 5'', ''ACD Circular No. 01'', ''ACD Circular No. 1''),
        (''BPRD Circular No. 5'', ''Annexure'', ''https://example.org/annex.pdf'')]"
  by code_simp

theorem validateEdges_accounting_witness:
  "length (b_edges (extractAll noRandom loaded_collision)) = 3
   \<and> length (validEdges (validateEdges (b_edges (extractAll noRandom loaded_collision))
        (b_nodes (extractAll noRandom loaded_collision))
        (nodeIdToNormalizedId (extractAll noRandom loaded_collision)))) = 2
   \<and> orphanedCount (validateEdges (b_edges (extractAll noRandom loaded_collision))
        (b_nodes (extractAll noRandom loaded_collision))
        (nodeIdToNormalizedId (extractAll noRandom loaded_collision))) = 1
   \<and> console (validateEdges (b_edges (extractAll noRandom loaded_collision))
        (b_nodes (extractAll noRandom loaded_collision))
        (nodeIdToNormalizedId (extractAll noRandom loaded_collision)))
      = [''1 orphaned references (target not found)'']"
proof -
  let ?E = "b_edges (extractAll noRandom loaded_collision)"
  let ?NM = "b_nodes (extractAll noRandom loaded_collision)"
  let ?T = "nodeIdToNormalizedId (extractAll noRandom loaded_collision)"
  have n: "length ?E = 3" by code_simp
  have m: "length (filter (\<lambda>e. \<not> resolvable ?NM ?T e) ?E) = 1" by code_simp
  have s: "showNat 1 = ''1''" by code_simp
  from validateEdges_accounting [of ?E ?NM ?T] n m s show ?thesis by simp
qed


text \<open>
  The node that the merge branch of \<open>deduplicateNodes\<close> leaves, field by field, when
  the \<open>content\<close> test does not throw.
\<close>

lemma mergeNode_result:
  assumes "n_content a \<noteq> None \<or> n_content b = None \<or> n_content b = Some []"
  shows "mergeNode a b = Inr (a\<lparr>
     n_title := (if n_title a = [] then n_title b else n_title a),
     n_date := (if truthyString (n_date b) \<and> \<not> truthyString (n_date a) then n_date b else n_date a),
     n_year := (if truthyYear (n_year b) \<and> \<not> truthyYear (n_year a) then n_year b else n_year a),
     n_url := (if n_url a = [] then n_url b else n_url a),
     n_content := (if n_content a = Some [] \<and> n_content b \<noteq> None then n_content b else n_content a),
     n_fromCache := (n_fromCache a \<or> n_fromCache b) \<rparr>)"
proof -
  define e1 where "e1 = (if n_title b \<noteq> [] \<and> n_title a = []
                then a\<lparr> n_title := n_title b \<rparr> else a)"
  define e2 where "e2 = (if truthyString (n_date b) \<and> \<not> truthyString (n_date e1)
                then e1\<lparr> n_date := n_date b \<rparr> else e1)"
  define e3 where "e3 = (if truthyYear (n_year b) \<and> \<not> truthyYear (n_year e2)
                then e2\<lparr> n_year := n_year b \<rparr> else e2)"
  define e4 where "e4 = (if n_url b \<noteq> [] \<and> n_url e3 = [] then e3\<lparr> n_url := n_url b \<rparr> else e3)"
  define e5 where "e5 = (case n_content b of
                  None \<Rightarrow> Inr e4
                | Some c \<Rightarrow>
                    if length c > 0 then
                      (case n_content e4 of
                         None \<Rightarrow> Inl TypeError
                       | Some ec \<Rightarrow> if length ec = 0 then Inr (e4\<lparr> n_content := Some c \<rparr>) else Inr e4)
                    else Inr e4)"
  have eq: "mergeNode a b = (case e5 of
           Inl err \<Rightarrow> Inl err
         | Inr e \<Rightarrow> Inr (if \<not> n_fromCache e then e\<lparr> n_fromCache := n_fromCache b \<rparr> else e))"
    unfolding mergeNode_def e1_def e2_def e3_def e4_def e5_def by (simp only: Let_def)
  define T where "T = (if n_title a = [] then n_title b else n_title a)"
  define D where "D = (if truthyString (n_date b) \<and> \<not> truthyString (n_date a) then n_date b else n_date a)"
  define Y where "Y = (if truthyYear (n_year b) \<and> \<not> truthyYear (n_year a) then n_year b else n_year a)"
  define U where "U = (if n_url a = [] then n_url b else n_url a)"
  define C where "C = (if n_content a = Some [] \<and> n_content b \<noteq> None then n_content b else n_content a)"
  have f1: "e1 = a\<lparr> n_title := T \<rparr>" by (simp add: e1_def T_def)
  have f2: "e2 = a\<lparr> n_title := T, n_date := D \<rparr>" by (simp add: e2_def f1 D_def)
  have f3: "e3 = a\<lparr> n_title := T, n_date := D, n_year := Y \<rparr>" by (simp add: e3_def f2 Y_def)
  have f4: "e4 = a\<lparr> n_title := T, n_date := D, n_year := Y, n_url := U \<rparr>" by (simp add: e4_def f3 U_def)
  have c4: "n_content e4 = n_content a" by (simp add: f4)
  have f5: "e5 = Inr (e4\<lparr> n_content := C \<rparr>)"
  proof (cases "n_content b")
    case None
    then show ?thesis by (simp add: e5_def C_def c4)
  next
    case (Some c)
    show ?thesis
    proof (cases "c = []")
      case True
      with Some show ?thesis by (auto simp: e5_def C_def c4)
    next
      case False
      with Some assms obtain ec where ec: "n_content a = Some ec" by auto
      with Some False show ?thesis by (cases "ec = []") (simp_all add: e5_def C_def c4)
    qed
  qed
  have "mergeNode a b = Inr ((e4\<lparr> n_content := C \<rparr>)\<lparr> n_fromCache := (n_fromCache a \<or> n_fromCache b) \<rparr>)"
    unfolding eq f5 by (simp add: f4)
  then show ?thesis
    unfolding f4 T_def D_def Y_def U_def C_def by simp
qed

lemma deduplicateNodes_two:
  assumes "n_id a = n_id b"
  shows "deduplicateNodes [a, b] =
     (if \<not> n_fromCache b \<or> n_fromCache a
      then (case mergeNode a b of Inl err \<Rightarrow> Inl err | Inr merged \<Rightarrow> Inr [merged])
      else Inr [a])"
  using assms by (simp add: deduplicateNodes_def mapGet_def split: sum.splits)

text \<open>
  What the code does when a cache record is met first and an authoritative record
  second: the cached values that are not empty stay, and so does the provenance
  \<open>cache\<close>, although the comment in the source says \<open>prefer non-cache data\<close>. The
  statement \<open>if (!existingNode.fromCache) existingNode.fromCache = node.fromCache\<close> can
  only write \<open>false\<close> over \<open>false\<close>.
\<close>

lemma deduplicateNodes_cache_first:
  assumes "n_id a = n_id b" and "n_fromCache a" and "\<not> n_fromCache b"
    and "n_content a \<noteq> None \<or> n_content b = None \<or> n_content b = Some []"
  shows "\<exists>m. deduplicateNodes [a, b] = Inr [m] \<and> n_fromCache m
     \<and> (n_title a \<noteq> [] \<longrightarrow> n_title m = n_title a)
     \<and> (truthyString (n_date a) \<longrightarrow> n_date m = n_date a)
     \<and> (truthyYear (n_year a) \<longrightarrow> n_year m = n_year a)
     \<and> (n_url a \<noteq> [] \<longrightarrow> n_url m = n_url a)
     \<and> (n_content a \<noteq> Some [] \<longrightarrow> n_content m = n_content a)"
  using deduplicateNodes_two [OF assms(1)] assms(2) mergeNode_result [OF assms(4)] by simp

text \<open>
  C3, as the code has it. Of two records with the same id the one met first is kept, and
  the outcome depends on the order. If the first record is authoritative and the second
  comes from the cache, the first is left exactly as it is: nothing is filled in from the
  cache record. In every other case the two are merged. The merge throws a \<open>TypeError\<close>
  when the first record has no \<open>content\<close> field and the second has non-empty content.
  If it does not throw, the kept record keeps its id, label, department, type and
  reference count, and each of its empty fields (title, date, year, url, content) takes
  the second record's value where that has one. If moreover the two records have the
  same provenance, no non-empty field of the kept record is replaced and the provenance
  stays. For a cache record met before an authoritative one only the filling of the
  empty fields is stated here.
\<close>

theorem deduplicateNodes_pair:
  assumes "n_id a = n_id b"
  shows "(\<not> n_fromCache a \<and> n_fromCache b \<longrightarrow> deduplicateNodes [a, b] = Inr [a])
   \<and> ((n_fromCache a \<or> \<not> n_fromCache b)
        \<and> n_content a = None \<and> n_content b \<noteq> None \<and> n_content b \<noteq> Some [] \<longrightarrow>
          deduplicateNodes [a, b] = Inl TypeError)
   \<and> ((n_fromCache a \<or> \<not> n_fromCache b)
        \<and> (n_content a \<noteq> None \<or> n_content b = None \<or> n_content b = Some []) \<longrightarrow>
          (\<exists>m. deduplicateNodes [a, b] = Inr [m]
             \<and> n_id m = n_id a \<and> n_label m = n_label a \<and> n_department m = n_department a
             \<and> n_type m = n_type a \<and> n_refCount m = n_refCount a
             \<and> (n_title a = [] \<longrightarrow> n_title m = n_title b)
             \<and> (\<not> truthyString (n_date a) \<and> truthyString (n_date b) \<longrightarrow> n_date m = n_date b)
             \<and> (\<not> truthyYear (n_year a) \<and> truthyYear (n_year b) \<longrightarrow> n_year m = n_year b)
             \<and> (n_url a = [] \<longrightarrow> n_url m = n_url b)
             \<and> (n_content a = Some [] \<and> n_content b \<noteq> None \<longrightarrow> n_content m = n_content b)
             \<and> (n_fromCache a = n_fromCache b \<longrightarrow>
                   (n_title a \<noteq> [] \<longrightarrow> n_title m = n_title a)
                 \<and> (truthyString (n_date a) \<longrightarrow> n_date m = n_date a)
                 \<and> (truthyYear (n_year a) \<longrightarrow> n_year m = n_year a)
                 \<and> (n_url a \<noteq> [] \<longrightarrow> n_url m = n_url a)
                 \<and> (n_content a \<noteq> Some [] \<longrightarrow> n_content m = n_content a)
                 \<and> n_fromCache m = n_fromCache a)))"
proof (intro conjI impI)
  assume "\<not> n_fromCache a \<and> n_fromCache b"
  then show "deduplicateNodes [a, b] = Inr [a]"
    using deduplicateNodes_two [OF assms] by simp
next
  assume t: "(n_fromCache a \<or> \<not> n_fromCache b)
        \<and> n_content a = None \<and> n_content b \<noteq> None \<and> n_content b \<noteq> Some []"
  then obtain c where c: "n_content b = Some c" "c \<noteq> []" by auto
  have "mergeNode a b = Inl TypeError"
    using t c by (simp add: mergeNode_def Let_def)
  with t show "deduplicateNodes [a, b] = Inl TypeError"
    using deduplicateNodes_two [OF assms] by auto
next
  assume g: "(n_fromCache a \<or> \<not> n_fromCache b)
        \<and> (n_content a \<noteq> None \<or> n_content b = None \<or> n_content b = Some [])"
  let ?m = "a\<lparr>
     n_title := (if n_title a = [] then n_title b else n_title a),
     n_date := (if truthyString (n_date b) \<and> \<not> truthyString (n_date a) then n_date b else n_date a),
     n_year := (if truthyYear (n_year b) \<and> \<not> truthyYear (n_year a) then n_year b else n_year a),
     n_url := (if n_url a = [] then n_url b else n_url a),
     n_content := (if n_content a = Some [] \<and> n_content b \<noteq> None then n_content b else n_content a),
     n_fromCache := (n_fromCache a \<or> n_fromCache b) \<rparr>"
  from g have c: "n_content a \<noteq> None \<or> n_content b = None \<or> n_content b = Some []" by simp
  have "deduplicateNodes [a, b] = Inr [?m]"
    using deduplicateNodes_two [OF assms] g mergeNode_result [OF c] by auto
  moreover have "n_id ?m = n_id a \<and> n_label ?m = n_label a \<and> n_department ?m = n_department a
     \<and> n_type ?m = n_type a \<and> n_refCount ?m = n_refCount a"
    by simp
  moreover have "(n_title a \<noteq> [] \<longrightarrow> n_title ?m = n_title a) \<and> (n_title a = [] \<longrightarrow> n_title ?m = n_title b)"
    by simp
  moreover have "(truthyString (n_date a) \<longrightarrow> n_date ?m = n_date a)
     \<and> (\<not> truthyString (n_date a) \<and> truthyString (n_date b) \<longrightarrow> n_date ?m = n_date b)"
    by simp
  moreover have "(truthyYear (n_year a) \<longrightarrow> n_year ?m = n_year a)
     \<and> (\<not> truthyYear (n_year a) \<and> truthyYear (n_year b) \<longrightarrow> n_year ?m = n_year b)"
    by simp
  moreover have "(n_url a \<noteq> [] \<longrightarrow> n_url ?m = n_url a) \<and> (n_url a = [] \<longrightarrow> n_url ?m = n_url b)"
    by simp
  moreover have "(n_content a \<noteq> Some [] \<longrightarrow> n_content ?m = n_content a)
     \<and> (n_content a = Some [] \<and> n_content b \<noteq> None \<longrightarrow> n_content ?m = n_content b)"
    by simp
  moreover have "n_fromCache a = n_fromCache b \<longrightarrow> n_fromCache ?m = n_fromCache a"
    by auto
  ultimately show "\<exists>m. deduplicateNodes [a, b] = Inr [m]
             \<and> n_id m = n_id a \<and> n_label m = n_label a \<and> n_department m = n_department a
             \<and> n_type m = n_type a \<and> n_refCount m = n_refCount a
             \<and> (n_title a = [] \<longrightarrow> n_title m = n_title b)
             \<and> (\<not> truthyString (n_date a) \<and> truthyString (n_date b) \<longrightarrow> n_date m = n_date b)
             \<and> (\<not> truthyYear (n_year a) \<and> truthyYear (n_year b) \<longrightarrow> n_year m = n_year b)
             \<and> (n_url a = [] \<longrightarrow> n_url m = n_url b)
             \<and> (n_content a = Some [] \<and> n_content b \<noteq> None \<longrightarrow> n_content m = n_content b)
             \<and> (n_fromCache a = n_fromCache b \<longrightarrow>
                   (n_title a \<noteq> [] \<longrightarrow> n_title m = n_title a)
                 \<and> (truthyString (n_date a) \<longrightarrow> n_date m = n_date a)
                 \<and> (truthyYear (n_year a) \<longrightarrow> n_year m = n_year a)
                 \<and> (n_url a \<noteq> [] \<longrightarrow> n_url m = n_url a)
                 \<and> (n_content a \<noteq> Some [] \<longrightarrow> n_content m = n_content a)
                 \<and> n_fromCache m = n_fromCache a)"
    by blast
qed

theorem deduplicateNodes_pair_witness:
  "n_id node_main = n_id node_cache \<and> n_id node_main = n_id node_letter \<and> n_id node_pdf = n_id node_cache
   \<and> n_id node_pdf = n_id node_letter
   \<and> deduplicateNodes [node_main, node_cache] = Inr [node_main]
   \<and> deduplicateNodes [node_pdf, node_cache] = Inr [node_pdf]
   \<and> deduplicateNodes [node_pdf, node_letter] = Inl TypeError
   \<and> (\<exists>m. deduplicateNodes [node_main, node_letter] = Inr [m]
         \<and> n_title m = ''Liquidity returns'' \<and> n_date m = Some ''June 01, 2019''
         \<and> n_year m = Some 2019 \<and> n_url m = ''https://example.org/bsd7''
         \<and> n_content m = Some [''text''] \<and> \<not> n_fromCache m)
   \<and> (\<exists>m. deduplicateNodes [node_cache, node_main] = Inr [m]
         \<and> n_date m = Some ''June 01, 2019'' \<and> n_year m = Some 2019
         \<and> n_url m = ''https://example.org/bsd7'')"
proof -
  have i: "n_id node_main = n_id node_cache" "n_id node_main = n_id node_letter"
      "n_id node_pdf = n_id node_cache" "n_id node_pdf = n_id node_letter"
      "n_id node_cache = n_id node_main"
    by (simp_all add: node_main_def node_cache_def node_letter_def node_pdf_def attachmentNode_def)
  have 1: "deduplicateNodes [node_main, node_cache] = Inr [node_main]"
    using deduplicateNodes_pair [OF i(1)] by (simp add: node_main_def node_cache_def)
  have 2: "deduplicateNodes [node_pdf, node_cache] = Inr [node_pdf]"
    using deduplicateNodes_pair [OF i(3)] by (simp add: node_pdf_def attachmentNode_def node_cache_def)
  have 3: "deduplicateNodes [node_pdf, node_letter] = Inl TypeError"
    using deduplicateNodes_pair [OF i(4)] by (simp add: node_pdf_def attachmentNode_def node_letter_def)
  have 4: "\<exists>m. deduplicateNodes [node_main, node_letter] = Inr [m]
         \<and> n_title m = ''Liquidity returns'' \<and> n_date m = Some ''June 01, 2019''
         \<and> n_year m = Some 2019 \<and> n_url m = ''https://example.org/bsd7''
         \<and> n_content m = Some [''text''] \<and> \<not> n_fromCache m"
    using deduplicateNodes_pair [OF i(2)]
    by (simp add: node_main_def node_letter_def truthyString_def truthyYear_def) blast
  have 5: "\<exists>m. deduplicateNodes [node_cache, node_main] = Inr [m]
         \<and> n_date m = Some ''June 01, 2019'' \<and> n_year m = Some 2019
         \<and> n_url m = ''https://example.org/bsd7''"
    using deduplicateNodes_pair [OF i(5)]
    by (simp add: node_main_def node_cache_def truthyString_def truthyYear_def) blast
  from i 1 2 3 4 5 show ?thesis by simp
qed

text \<open>
  C3 as stated fails. Authoritative record first: its empty content is not filled from
  the cache record. Cache record first: the authoritative title does not replace the
  cached one and the provenance stays \<open>cache\<close>.
\<close>

theorem deduplicateNodes_order_counterexample:
  "deduplicateNodes [node_main, node_cache] = Inr [node_main]
   \<and> n_content node_main = Some [] \<and> n_content node_cache = Some [''cached text'']
   \<and> deduplicateNodes [node_cache, node_main]
     = Inr [node_cache\<lparr> n_date := Some ''June 01, 2019'', n_year := Some 2019,
                        n_url := ''https://example.org/bsd7'' \<rparr>]
   \<and> n_title node_main = ''Liquidity returns'' \<and> n_title node_cache = ''BSD Circular No. 7''
   \<and> n_fromCache node_cache"
  by code_simp

text \<open>The merge that throws: a pdf node met first, then a circular with content under the same id.\<close>

lemma deduplicateNodes_TypeError:
  "deduplicateNodes [attachmentNode ''BSD Circular No. 7'' ''Annexure'' ''PDF Document'' ''BSD Circular No. 7'' ''pdf'' ''BSD'',
                     node_main\<lparr> n_content := Some [''text''] \<rparr>] = Inl TypeError"
  by code_simp

section \<open>Properties of the title normalization\<close>

lemma space_facts:
  "isSpace c \<Longrightarrow> \<not> isWord c" "isSpace c \<Longrightarrow> \<not> isDigit c" "isSpace c \<Longrightarrow> c \<noteq> CHR ''0''"
  "isSpace c \<Longrightarrow> \<not> isN c" "isSpace c \<Longrightarrow> \<not> isO c" "isSpace c \<Longrightarrow> c \<noteq> CHR ''.''"
  by (auto simp: isSpace_def isWord_def isDigit_def isN_def isO_def Let_def)

lemma char_facts:
  "isSpace (CHR '' '')" "\<not> isWord (CHR '' '')" "\<not> isDigit (CHR '' '')" "\<not> isWord (CHR ''.'')"
  "isWord (CHR ''0'')" "isDigit (CHR ''0'')" "\<not> isN (CHR '' '')" "\<not> isO (CHR '' '')"
  "isN (CHR ''n'')" "isO (CHR ''o'')" "\<not> isN (CHR ''o'')" "isWord (CHR ''n'')" "isWord (CHR ''o'')"
  "toLowerChar (CHR ''n'') = CHR ''n''" "toLowerChar (CHR ''o'') = CHR ''o''"
  "toLowerChar (CHR '' '') = CHR '' ''"
  by (simp_all add: isSpace_def isWord_def isDigit_def isN_def isO_def toLowerChar_def)

lemma letter_facts:
  "isDigit d \<Longrightarrow> isWord d" "isN c \<Longrightarrow> \<not> isDigit c" "isN c \<Longrightarrow> c \<noteq> CHR ''0''"
  "isN c \<Longrightarrow> c \<noteq> CHR ''.''" "isO c \<Longrightarrow> \<not> isN c" "isO c \<Longrightarrow> c \<noteq> CHR ''.''" "isN c \<Longrightarrow> isWord c"
  by (auto simp: isWord_def isDigit_def isN_def isO_def Let_def)

subsection \<open>Lower case\<close>

lemma stripLeadingZeros_other:
  "\<not> (c = CHR ''0'' \<and> \<not> p) \<Longrightarrow> stripLeadingZeros p (c # cs) = c # stripLeadingZeros (isWord c) cs"
  by auto

lemma stripLeadingZeros_end:
  "dropWhile (\<lambda>x. x = CHR ''0'') cs = [] \<Longrightarrow> stripLeadingZeros False (CHR ''0'' # cs) = [CHR ''0'']"
  by (simp del: dropWhile_eq_Nil_conv)

lemma stripLeadingZeros_digit:
  "dropWhile (\<lambda>x. x = CHR ''0'') cs = d # r \<Longrightarrow> isDigit d \<Longrightarrow>
     stripLeadingZeros False (CHR ''0'' # cs) = d # stripLeadingZeros True r"
  by simp

lemma stripLeadingZeros_nodigit:
  "dropWhile (\<lambda>x. x = CHR ''0'') cs = d # r \<Longrightarrow> \<not> isDigit d \<Longrightarrow>
     stripLeadingZeros False (CHR ''0'' # cs) = CHR ''0'' # stripLeadingZeros True (d # r)"
  by simp

lemma set_stripLeadingZeros: "set (stripLeadingZeros p s) \<subseteq> set s"
proof (induction p s rule: stripLeadingZeros.induct)
  case (1 prevWord)
  then show ?case by simp
next
  case (2 prevWord c cs)
  show ?case
  proof (cases "c = CHR ''0'' \<and> \<not> prevWord")
    case False
    with "2.IH"(3) [OF False] show ?thesis by (auto simp: stripLeadingZeros_other simp del: stripLeadingZeros.simps)
  next
    case True
    show ?thesis
    proof (cases "dropWhile (\<lambda>x. x = CHR ''0'') cs")
      case Nil
      with True show ?thesis by (simp add: stripLeadingZeros_end del: stripLeadingZeros.simps)
    next
      case (Cons d r)
      have sub: "set (d # r) \<subseteq> set cs"
        using set_dropWhileD [of _ "\<lambda>x. x = CHR ''0''" cs] Cons by auto
      show ?thesis
      proof (cases "isDigit d")
        case d: True
        have "stripLeadingZeros prevWord (c # cs) = d # stripLeadingZeros True r"
          using True Cons d by (simp add: stripLeadingZeros_digit del: stripLeadingZeros.simps)
        with "2.IH"(1) [OF True Cons d] sub show ?thesis by auto
      next
        case d: False
        have "stripLeadingZeros prevWord (c # cs) = CHR ''0'' # stripLeadingZeros True (d # r)"
          using True Cons d by (simp add: stripLeadingZeros_nodigit del: stripLeadingZeros.simps)
        with "2.IH"(2) [OF True Cons d] sub True show ?thesis by auto
      qed
    qed
  qed
qed

lemma set_replaceNo: "set (replaceNo s) \<subseteq> set s \<union> {CHR ''n'', CHR ''o'', CHR '' ''}"
proof (induction s rule: replaceNo.induct)
  case (1 c1 c2 c3 rest)
  show ?case
  proof (cases "isN c1 \<and> isO c2 \<and> c3 = CHR ''.''")
    case True
    have "set (dropWhile isSpace rest) \<subseteq> set rest" using set_dropWhileD by fastforce
    with "1.IH"(1) [OF True] True show ?thesis by auto
  next
    case False
    with "1.IH"(2) [OF False] show ?thesis by auto
  qed
qed simp_all

lemma set_collapseWhitespace: "set (collapseWhitespace s) \<subseteq> set s \<union> {CHR '' ''}"
proof (induction s rule: collapseWhitespace.induct)
  case 1
  then show ?case by simp
next
  case (2 c cs)
  show ?case
  proof (cases "isSpace c")
    case True
    have "set (dropWhile isSpace cs) \<subseteq> set cs" using set_dropWhileD by fastforce
    with "2.IH"(1) [OF True] True show ?thesis by auto
  next
    case False
    with "2.IH"(2) [OF False] show ?thesis by auto
  qed
qed

lemma normalizeTitle_lower: "toLowerCase (normalizeTitle t) = normalizeTitle t"
proof (cases "t = []")
  case True
  then show ?thesis by (simp add: normalizeTitle_def toLowerCase_def)
next
  case False
  let ?s0 = "toLowerCase t"
  let ?s1 = "stripLeadingZeros False ?s0"
  let ?s2 = "replaceNo ?s1"
  let ?s3 = "collapseWhitespace ?s2"
  have l0: "\<forall>c \<in> set ?s0. toLowerChar c = c"
    by (auto simp: toLowerCase_def toLowerChar_idem)
  have "set ?s1 \<subseteq> set ?s0" by (rule set_stripLeadingZeros)
  with l0 have l1: "\<forall>c \<in> set ?s1. toLowerChar c = c" by blast
  have "set ?s2 \<subseteq> set ?s1 \<union> {CHR ''n'', CHR ''o'', CHR '' ''}" by (rule set_replaceNo)
  with l1 have l2: "\<forall>c \<in> set ?s2. toLowerChar c = c" by (auto simp: char_facts)
  have "set ?s3 \<subseteq> set ?s2 \<union> {CHR '' ''}" by (rule set_collapseWhitespace)
  with l2 have l3: "\<forall>c \<in> set ?s3. toLowerChar c = c" by (auto simp: char_facts)
  have "set (trim ?s3) \<subseteq> set ?s3" by (rule set_trim)
  with l3 have "\<forall>c \<in> set (trim ?s3). toLowerChar c = c" by blast
  then have "map toLowerChar (trim ?s3) = trim ?s3" by (simp add: map_idI)
  with False show ?thesis by (simp add: normalizeTitle_def toLowerCase_def)
qed


text \<open>The equations of the three scanners, one for each branch.\<close>

lemma replaceNo_match:
  "isN c1 \<Longrightarrow> isO c2 \<Longrightarrow>
     replaceNo (c1 # c2 # CHR ''.'' # rest) = CHR ''n'' # CHR ''o'' # CHR '' '' # replaceNo (dropWhile isSpace rest)"
  by simp

lemma replaceNo_other:
  "\<not> (isN c1 \<and> isO c2 \<and> c3 = CHR ''.'') \<Longrightarrow>
     replaceNo (c1 # c2 # c3 # rest) = c1 # replaceNo (c2 # c3 # rest)"
  by auto

lemma collapseWhitespace_space:
  "isSpace c \<Longrightarrow> collapseWhitespace (c # cs) = CHR '' '' # collapseWhitespace (dropWhile isSpace cs)"
  by simp

lemma collapseWhitespace_other:
  "\<not> isSpace c \<Longrightarrow> collapseWhitespace (c # cs) = c # collapseWhitespace cs"
  by simp

declare stripLeadingZeros.simps(2) [simp del]

declare replaceNo.simps(1) [simp del]

declare collapseWhitespace.simps(2) [simp del]

subsection \<open>Leading zeros\<close>

lemma startsDigit_stripLeadingZeros_True: "startsDigit (stripLeadingZeros True s) = startsDigit s"
  by (cases s) (simp_all add: stripLeadingZeros_other)

lemma dropWhile_zero_head:
  "dropWhile (\<lambda>x. x = CHR ''0'') cs = d # r \<Longrightarrow> d \<noteq> CHR ''0''"
  using hd_dropWhile [of "\<lambda>x. x = CHR ''0''" cs] by auto

lemma noLeadingZeros_stripLeadingZeros: "noLeadingZeros p (stripLeadingZeros p s)"
proof (induction p s rule: stripLeadingZeros.induct)
  case (1 prevWord)
  then show ?case by simp
next
  case (2 prevWord c cs)
  show ?case
  proof (cases "c = CHR ''0'' \<and> \<not> prevWord")
    case False
    with "2.IH"(3) [OF False] show ?thesis
      by (auto simp: stripLeadingZeros_other)
  next
    case True
    show ?thesis
    proof (cases "dropWhile (\<lambda>x. x = CHR ''0'') cs")
      case Nil
      with True show ?thesis by (simp add: stripLeadingZeros_end)
    next
      case (Cons d r)
      show ?thesis
      proof (cases "isDigit d")
        case d: True
        have e: "stripLeadingZeros prevWord (c # cs) = d # stripLeadingZeros True r"
          using True Cons d by (simp add: stripLeadingZeros_digit)
        have "d \<noteq> CHR ''0''" using Cons by (rule dropWhile_zero_head)
        with "2.IH"(1) [OF True Cons d] d show ?thesis
          unfolding e by (simp add: letter_facts)
      next
        case d: False
        have e: "stripLeadingZeros prevWord (c # cs) = CHR ''0'' # stripLeadingZeros True (d # r)"
          using True Cons d by (simp add: stripLeadingZeros_nodigit)
        have "\<not> startsDigit (stripLeadingZeros True (d # r))"
          using d by (simp add: startsDigit_stripLeadingZeros_True)
        with "2.IH"(2) [OF True Cons d] show ?thesis
          unfolding e by (simp add: char_facts)
      qed
    qed
  qed
qed

lemma stripLeadingZeros_fixed: "noLeadingZeros p s \<Longrightarrow> stripLeadingZeros p s = s"
proof (induction p s rule: stripLeadingZeros.induct)
  case (1 prevWord)
  then show ?case by simp
next
  case (2 prevWord c cs)
  from "2.prems" have nz: "noLeadingZeros (isWord c) cs" by simp
  show ?case
  proof (cases "c = CHR ''0'' \<and> \<not> prevWord")
    case False
    with "2.IH"(3) [OF False nz] show ?thesis
      by (simp add: stripLeadingZeros_other)
  next
    case True
    with "2.prems" have nd: "\<not> startsDigit cs" by simp
    show ?thesis
    proof (cases cs)
      case Nil
      with True show ?thesis by (simp add: stripLeadingZeros_end)
    next
      case (Cons d r)
      with nd have d: "\<not> isDigit d" by simp
      then have "d \<noteq> CHR ''0''" using char_facts(6) by auto
      with Cons have dw: "dropWhile (\<lambda>x. x = CHR ''0'') cs = d # r" by simp
      have e: "stripLeadingZeros prevWord (c # cs) = CHR ''0'' # stripLeadingZeros True (d # r)"
        using True dw d by (simp add: stripLeadingZeros_nodigit)
      from nz True Cons have "noLeadingZeros True (d # r)" by (simp add: char_facts)
      from "2.IH"(2) [OF True dw d this] e True Cons show ?thesis by simp
    qed
  qed
qed

lemma noLeadingZeros_dropWhile:
  "noLeadingZeros False s \<Longrightarrow> noLeadingZeros False (dropWhile isSpace s)"
  by (induction s) (auto simp: space_facts)

lemma noLeadingZeros_prefix: "noLeadingZeros p (xs @ ys) \<Longrightarrow> noLeadingZeros p xs"
proof (induction xs arbitrary: p)
  case Nil
  then show ?case by simp
next
  case (Cons c xs)
  have "startsDigit xs \<Longrightarrow> startsDigit (xs @ ys)" by (cases xs) simp_all
  with Cons show ?case by auto
qed

lemma startsDigit_replaceNo: "startsDigit (replaceNo s) = startsDigit s"
proof (cases s rule: replaceNo.cases)
  case (1 c1 c2 c3 rest)
  have n: "\<not> isDigit (CHR ''n'')" by (simp add: isDigit_def)
  show ?thesis
  proof (cases "isN c1 \<and> isO c2 \<and> c3 = CHR ''.''")
    case True
    with 1 n show ?thesis by (simp add: replaceNo_match letter_facts)
  next
    case False
    with 1 show ?thesis by (simp add: replaceNo_other)
  qed
qed simp_all

lemma noLeadingZeros_replaceNo: "noLeadingZeros p s \<Longrightarrow> noLeadingZeros p (replaceNo s)"
proof (induction s arbitrary: p rule: replaceNo.induct)
  case (1 c1 c2 c3 rest)
  show ?case
  proof (cases "isN c1 \<and> isO c2 \<and> c3 = CHR ''.''")
    case True
    from "1.prems" True have "noLeadingZeros False rest" by (simp add: char_facts)
    then have "noLeadingZeros False (dropWhile isSpace rest)" by (rule noLeadingZeros_dropWhile)
    from "1.IH"(1) [OF True this] True show ?thesis
      by (simp add: replaceNo_match char_facts letter_facts)
  next
    case False
    from "1.prems" have "noLeadingZeros (isWord c1) (c2 # c3 # rest)" by simp
    from "1.IH"(2) [OF False this]
    have ih: "noLeadingZeros (isWord c1) (replaceNo (c2 # c3 # rest))" .
    have e: "replaceNo (c1 # c2 # c3 # rest) = c1 # replaceNo (c2 # c3 # rest)"
      using False by (rule replaceNo_other)
    from "1.prems" have "\<not> (c1 = CHR ''0'' \<and> \<not> p \<and> startsDigit (c2 # c3 # rest))" by simp
    then have "\<not> (c1 = CHR ''0'' \<and> \<not> p \<and> startsDigit (replaceNo (c2 # c3 # rest)))"
      by (simp add: startsDigit_replaceNo)
    with ih show ?thesis unfolding e by simp
  qed
qed simp_all

lemma startsDigit_collapseWhitespace: "startsDigit (collapseWhitespace s) = startsDigit s"
proof (cases s)
  case Nil
  then show ?thesis by simp
next
  case (Cons c cs)
  then show ?thesis
    by (cases "isSpace c") (simp_all add: collapseWhitespace_space collapseWhitespace_other space_facts char_facts)
qed

lemma noLeadingZeros_collapseWhitespace:
  "noLeadingZeros p s \<Longrightarrow> noLeadingZeros p (collapseWhitespace s)"
proof (induction s arbitrary: p rule: collapseWhitespace.induct)
  case 1
  then show ?case by simp
next
  case (2 c cs)
  show ?case
  proof (cases "isSpace c")
    case True
    from "2.prems" True have "noLeadingZeros False cs" by (simp add: space_facts)
    then have "noLeadingZeros False (dropWhile isSpace cs)" by (rule noLeadingZeros_dropWhile)
    from "2.IH"(1) [OF True this] True show ?thesis
      by (simp add: collapseWhitespace_space char_facts)
  next
    case False
    from "2.prems" have "noLeadingZeros (isWord c) cs" by simp
    from "2.IH"(2) [OF False this]
    have ih: "noLeadingZeros (isWord c) (collapseWhitespace cs)" .
    have e: "collapseWhitespace (c # cs) = c # collapseWhitespace cs"
      using False by (rule collapseWhitespace_other)
    from "2.prems" have "\<not> (c = CHR ''0'' \<and> \<not> p \<and> startsDigit cs)" by simp
    then have "\<not> (c = CHR ''0'' \<and> \<not> p \<and> startsDigit (collapseWhitespace cs))"
      by (simp add: startsDigit_collapseWhitespace)
    with ih show ?thesis unfolding e by simp
  qed
qed

lemma trim_prefix: "\<exists>ys. dropWhile isSpace s = trim s @ ys"
proof -
  have "rev (dropWhile isSpace s)
      = takeWhile isSpace (rev (dropWhile isSpace s)) @ dropWhile isSpace (rev (dropWhile isSpace s))"
    by simp
  then have "dropWhile isSpace s
      = rev (dropWhile isSpace (rev (dropWhile isSpace s))) @ rev (takeWhile isSpace (rev (dropWhile isSpace s)))"
    by (metis rev_append rev_rev_ident)
  then show ?thesis unfolding trim_def by blast
qed

lemma noLeadingZeros_trim: "noLeadingZeros False s \<Longrightarrow> noLeadingZeros False (trim s)"
proof -
  assume "noLeadingZeros False s"
  then have d: "noLeadingZeros False (dropWhile isSpace s)" by (rule noLeadingZeros_dropWhile)
  obtain ys where "dropWhile isSpace s = trim s @ ys" using trim_prefix by blast
  with d show ?thesis using noLeadingZeros_prefix by metis
qed

subsection \<open>The text \<open>no.\<close>\<close>

lemma noNoDot_replaceNo:
  "\<not> (k = 1 \<and> (\<exists>c r. s = c # CHR ''.'' # r \<and> isO c)) \<Longrightarrow> \<not> (k = 2 \<and> (\<exists>r. s = CHR ''.'' # r)) \<Longrightarrow>
     noNoDot k (replaceNo s)"
proof (induction s arbitrary: k rule: replaceNo.induct)
  case (1 c1 c2 c3 rest)
  show ?case
  proof (cases "isN c1 \<and> isO c2 \<and> c3 = CHR ''.''")
    case True
    have "noNoDot 0 (replaceNo (dropWhile isSpace rest))"
      by (rule "1.IH"(1) [OF True]) simp_all
    with True show ?thesis by (simp add: replaceNo_match char_facts)
  next
    case False
    let ?k = "if isN c1 then 1 else if k = 1 \<and> isO c1 then 2 else (0::nat)"
    have a: "\<not> (?k = 1 \<and> (\<exists>c r. c2 # c3 # rest = c # CHR ''.'' # r \<and> isO c))"
      using False by auto
    have b: "\<not> (?k = 2 \<and> (\<exists>r. c2 # c3 # rest = CHR ''.'' # r))"
      using "1.prems"(1) by auto
    have "noNoDot ?k (replaceNo (c2 # c3 # rest))"
      by (rule "1.IH"(2) [OF False a b])
    with False "1.prems"(2) show ?thesis by (simp add: replaceNo_other)
  qed
next
  case 2
  then show ?case by simp
next
  case (3 c1)
  then show ?case by simp
next
  case (4 c1 c2)
  then show ?case by auto
qed

lemma replaceNo_fixed: "noNoDot k s \<Longrightarrow> replaceNo s = s"
proof (induction s arbitrary: k rule: replaceNo.induct)
  case (1 c1 c2 c3 rest)
  have nomatch: "\<not> (isN c1 \<and> isO c2 \<and> c3 = CHR ''.'')"
  proof
    assume m: "isN c1 \<and> isO c2 \<and> c3 = CHR ''.''"
    then have "\<not> isN c2" by (simp add: letter_facts)
    with m "1.prems" show False by simp
  qed
  from "1.prems" have "noNoDot (if isN c1 then 1 else if k = 1 \<and> isO c1 then 2 else 0) (c2 # c3 # rest)"
    by simp
  from "1.IH"(2) [OF nomatch this] nomatch show ?case by (simp add: replaceNo_other)
qed simp_all

lemma noNoDot_dropWhile: "noNoDot 0 s \<Longrightarrow> noNoDot 0 (dropWhile isSpace s)"
  by (induction s) (auto simp: space_facts)

lemma noNoDot_prefix: "noNoDot k (xs @ ys) \<Longrightarrow> noNoDot k xs"
  by (induction xs arbitrary: k) auto

lemma noNoDot_collapseWhitespace: "noNoDot k s \<Longrightarrow> noNoDot k (collapseWhitespace s)"
proof (induction s arbitrary: k rule: collapseWhitespace.induct)
  case 1
  then show ?case by simp
next
  case (2 c cs)
  show ?case
  proof (cases "isSpace c")
    case True
    from "2.prems" True have "noNoDot 0 cs" by (simp add: space_facts)
    then have "noNoDot 0 (dropWhile isSpace cs)" by (rule noNoDot_dropWhile)
    from "2.IH"(1) [OF True this] True show ?thesis
      by (simp add: collapseWhitespace_space char_facts)
  next
    case False
    from "2.prems" have "noNoDot (if isN c then 1 else if k = 1 \<and> isO c then 2 else 0) cs" by simp
    from "2.IH"(2) [OF False this] "2.prems" False show ?thesis
      by (simp add: collapseWhitespace_other)
  qed
qed

lemma noNoDot_trim: "noNoDot 0 s \<Longrightarrow> noNoDot 0 (trim s)"
proof -
  assume "noNoDot 0 s"
  then have d: "noNoDot 0 (dropWhile isSpace s)" by (rule noNoDot_dropWhile)
  obtain ys where "dropWhile isSpace s = trim s @ ys" using trim_prefix by blast
  with d show ?thesis using noNoDot_prefix by metis
qed

subsection \<open>White space\<close>

lemma startsSpace_dropWhile: "\<not> startsSpace (dropWhile isSpace s)"
  by (induction s) auto

lemma startsSpace_collapseWhitespace: "startsSpace (collapseWhitespace s) = startsSpace s"
proof (cases s)
  case Nil
  then show ?thesis by simp
next
  case (Cons c cs)
  then show ?thesis
    by (cases "isSpace c") (simp_all add: collapseWhitespace_space collapseWhitespace_other char_facts)
qed

lemma singleBlanks_collapseWhitespace: "singleBlanks (collapseWhitespace s)"
proof (induction s rule: collapseWhitespace.induct)
  case 1
  then show ?case by simp
next
  case (2 c cs)
  show ?case
  proof (cases "isSpace c")
    case True
    with "2.IH"(1) [OF True] show ?thesis
      by (simp add: collapseWhitespace_space char_facts startsSpace_collapseWhitespace startsSpace_dropWhile)
  next
    case False
    with "2.IH"(2) [OF False] show ?thesis by (simp add: collapseWhitespace_other)
  qed
qed

lemma collapseWhitespace_fixed: "singleBlanks s \<Longrightarrow> collapseWhitespace s = s"
proof (induction s rule: collapseWhitespace.induct)
  case 1
  then show ?case by simp
next
  case (2 c cs)
  show ?case
  proof (cases "isSpace c")
    case True
    with "2.prems" have c: "c = CHR '' ''" and ns: "\<not> startsSpace cs" and sb: "singleBlanks cs" by auto
    from ns have dw: "dropWhile isSpace cs = cs" by (cases cs) simp_all
    from "2.IH"(1) [OF True] sb dw True c show ?thesis by (simp add: collapseWhitespace_space)
  next
    case False
    with "2.IH"(2) [OF False] "2.prems" show ?thesis by (simp add: collapseWhitespace_other)
  qed
qed

lemma singleBlanks_dropWhile: "singleBlanks s \<Longrightarrow> singleBlanks (dropWhile isSpace s)"
  by (induction s) auto

lemma singleBlanks_prefix: "singleBlanks (xs @ ys) \<Longrightarrow> singleBlanks xs"
proof (induction xs)
  case Nil
  then show ?case by simp
next
  case (Cons c xs)
  have "startsSpace xs \<Longrightarrow> startsSpace (xs @ ys)" by (cases xs) simp_all
  with Cons show ?case by auto
qed

lemma singleBlanks_trim: "singleBlanks s \<Longrightarrow> singleBlanks (trim s)"
proof -
  assume "singleBlanks s"
  then have d: "singleBlanks (dropWhile isSpace s)" by (rule singleBlanks_dropWhile)
  obtain ys where "dropWhile isSpace s = trim s @ ys" using trim_prefix by blast
  with d show ?thesis using singleBlanks_prefix by metis
qed

lemma trim_idem: "trim (trim s) = trim s"
proof -
  obtain ys where p: "dropWhile isSpace s = trim s @ ys" using trim_prefix by blast
  have "trim s = [] \<or> \<not> isSpace (hd (trim s))"
  proof (cases "trim s")
    case Nil
    then show ?thesis by simp
  next
    case (Cons a as)
    with p have "hd (dropWhile isSpace s) = a" and "dropWhile isSpace s \<noteq> []" by auto
    then have "\<not> isSpace a" using hd_dropWhile by metis
    with Cons show ?thesis by simp
  qed
  then have "dropWhile isSpace (trim s) = trim s"
    by (simp add: dropWhile_eq_self_iff)
  then have "trim (trim s) = rev (dropWhile isSpace (rev (trim s)))"
    by (simp add: trim_def)
  also have "\<dots> = rev (dropWhile isSpace (dropWhile isSpace (rev (dropWhile isSpace s))))"
    by (simp add: trim_def)
  also have "\<dots> = trim s"
    by (simp add: trim_def dropWhile_idem)
  finally show ?thesis .
qed

text \<open>
  C10. \<open>normalizeTitle\<close> is idempotent: a normalized title is in lower case, has no
  leading zero left to remove, no \<open>no.\<close> left to replace, only single blanks and no
  white space at its ends, so a second pass changes nothing.
\<close>

theorem normalizeTitle_idempotent: "normalizeTitle (normalizeTitle t) = normalizeTitle t"
proof (cases "normalizeTitle t = []")
  case True
  then show ?thesis by (simp add: normalizeTitle_def)
next
  case False
  then have t: "t \<noteq> []" by (auto simp: normalizeTitle_def)
  let ?s1 = "stripLeadingZeros False (toLowerCase t)"
  let ?s2 = "replaceNo ?s1"
  let ?s3 = "collapseWhitespace ?s2"
  have out: "normalizeTitle t = trim ?s3" using t by (simp add: normalizeTitle_def)
  have z: "noLeadingZeros False (normalizeTitle t)"
    unfolding out
    by (intro noLeadingZeros_trim noLeadingZeros_collapseWhitespace noLeadingZeros_replaceNo
        noLeadingZeros_stripLeadingZeros)
  have "noNoDot 0 ?s2" by (rule noNoDot_replaceNo) simp_all
  then have n: "noNoDot 0 (normalizeTitle t)"
    unfolding out by (intro noNoDot_trim noNoDot_collapseWhitespace)
  have w: "singleBlanks (normalizeTitle t)"
    unfolding out by (intro singleBlanks_trim singleBlanks_collapseWhitespace)
  have "normalizeTitle (normalizeTitle t)
      = trim (collapseWhitespace (replaceNo (stripLeadingZeros False (toLowerCase (normalizeTitle t)))))"
    using False by (simp add: normalizeTitle_def)
  also have "\<dots> = trim (normalizeTitle t)"
    by (simp add: normalizeTitle_lower stripLeadingZeros_fixed [OF z] replaceNo_fixed [OF n]
        collapseWhitespace_fixed [OF w])
  also have "\<dots> = normalizeTitle t"
    unfolding out by (rule trim_idem)
  finally show ?thesis .
qed


theorem normalizeTitle_idempotent_witness:
  "normalizeTitle ''BPRD  Circular No.01'' = ''bprd circular no 1''
   \<and> normalizeTitle (normalizeTitle ''BPRD  Circular No.01'') = ''bprd circular no 1''"
proof -
  have "normalizeTitle ''BPRD  Circular No.01'' = ''bprd circular no 1''" by code_simp
  with normalizeTitle_idempotent [of "''BPRD  Circular No.01''"] show ?thesis by simp
qed

section \<open>Properties of the cycle detector\<close>

lemma visited_recordCycle: "visited (recordCycle path edgePath nb st) = visited st"
  by (simp add: recordCycle_def Let_def split: option.splits)

text \<open>
  The recursion ends before the bound: with every id of the graph in a finite set \<open>U\<close>,
  a call of \<open>dfs\<close> on an unvisited node returns whenever the bound is at least the
  number of unvisited ids, and it only adds to \<open>visited\<close>.
\<close>

lemma dfs_returns:
  "finite U \<Longrightarrow> (\<forall>x ns. adjList x = Some ns \<longrightarrow> nb_target ` set ns \<subseteq> U) \<Longrightarrow>
     nodeId \<in> U \<Longrightarrow> nodeId \<notin> visited st \<Longrightarrow> card (U - visited st) \<le> k \<Longrightarrow>
     \<exists>st'. dfs k adjList nodeId path edgePath st = Some st' \<and> visited st \<subseteq> visited st'"
  and dfs_neighbors_returns:
  "finite U \<Longrightarrow> (\<forall>x ns. adjList x = Some ns \<longrightarrow> nb_target ` set ns \<subseteq> U) \<Longrightarrow>
     nb_target ` set nbs \<subseteq> U \<Longrightarrow> card (U - visited st) \<le> k \<Longrightarrow>
     \<exists>st'. dfs_neighbors k adjList nbs path edgePath st = Some st' \<and> visited st \<subseteq> visited st'"
proof (induction k adjList nodeId path edgePath st and k adjList nbs path edgePath st
    rule: dfs_dfs_neighbors.induct)
  case (1 adjList nodeId path edgePath st)
  from "1.prems" have "nodeId \<in> U - visited st" and "finite (U - visited st)" by auto
  then have "card (U - visited st) > 0" using card_gt_0_iff by blast
  with "1.prems"(5) show ?case by linarith
next
  case (2 k adjList nodeId path edgePath st)
  let ?st1 = "st\<lparr>visited := insert nodeId (visited st),
                  recursionStack := insert nodeId (recursionStack st)\<rparr>"
  let ?nbs = "case adjList nodeId of None \<Rightarrow> [] | Some ns \<Rightarrow> ns"
  have t: "nb_target ` set ?nbs \<subseteq> U"
    using "2.prems"(2) by (cases "adjList nodeId") auto
  have "U - visited ?st1 = (U - visited st) - {nodeId}" by auto
  moreover have "nodeId \<in> U - visited st" using "2.prems" by simp
  moreover have "finite (U - visited st)" using "2.prems"(1) by simp
  ultimately have "card (U - visited ?st1) = card (U - visited st) - 1"
    by (simp add: card_Diff_singleton)
  with "2.prems"(5) have c: "card (U - visited ?st1) \<le> k" by simp
  from "2.IH" [OF refl refl refl "2.prems"(1) "2.prems"(2) t c]
  obtain st2 where st2: "dfs_neighbors k adjList ?nbs (path @ [nodeId]) edgePath ?st1 = Some st2"
    and v: "visited ?st1 \<subseteq> visited st2" by blast
  from st2 have "dfs (Suc k) adjList nodeId path edgePath st
      = Some (st2\<lparr>recursionStack := recursionStack st2 - {nodeId}\<rparr>)"
    by (simp add: Let_def)
  moreover from v have "visited st \<subseteq> visited (st2\<lparr>recursionStack := recursionStack st2 - {nodeId}\<rparr>)"
    by auto
  ultimately show ?case by blast
next
  case (3 k adjList path edgePath st)
  then show ?case by simp
next
  case (4 k adjList nb nbs path edgePath st)
  from "4.prems"(3) have tn: "nb_target nb \<in> U" and ts: "nb_target ` set nbs \<subseteq> U" by auto
  show ?case
  proof (cases "nb_target nb \<in> recursionStack st")
    case True
    have "card (U - visited (recordCycle path edgePath nb st)) \<le> k"
      using "4.prems"(4) by (simp add: visited_recordCycle)
    from "4.IH"(1) [OF True "4.prems"(1) "4.prems"(2) ts this] True show ?thesis
      by (simp add: visited_recordCycle)
  next
    case False
    show ?thesis
    proof (cases "nb_target nb \<notin> visited st")
      case True
      from "4.IH"(2) [OF False True "4.prems"(1) "4.prems"(2) tn True "4.prems"(4)]
      obtain st1 where st1: "dfs k adjList (nb_target nb) path (edgePath @ [nb_edgeId nb]) st = Some st1"
        and v: "visited st \<subseteq> visited st1" by blast
      have "U - visited st1 \<subseteq> U - visited st" using v by auto
      then have "card (U - visited st1) \<le> card (U - visited st)"
        using "4.prems"(1) by (intro card_mono) auto
      with "4.prems"(4) have c: "card (U - visited st1) \<le> k" by simp
      from "4.IH"(3) [OF False True st1 "4.prems"(1) "4.prems"(2) ts c]
      obtain st' where "dfs_neighbors k adjList nbs path edgePath st1 = Some st'"
        and "visited st1 \<subseteq> visited st'" by blast
      with False True st1 v show ?thesis by auto
    next
      case nv: False
      from "4.IH"(4) [OF False nv "4.prems"(1) "4.prems"(2) ts "4.prems"(4)] False nv
      show ?thesis by simp
    qed
  qed
qed

lemma detectCycles_loop_returns:
  "finite U \<Longrightarrow> (\<forall>x ns. adjList x = Some ns \<longrightarrow> nb_target ` set ns \<subseteq> U) \<Longrightarrow>
     set ids \<subseteq> U \<Longrightarrow> card (U - visited st) \<le> k \<Longrightarrow>
     \<exists>st'. detectCycles_loop k adjList ids st = Some st'"
proof (induction ids arbitrary: st)
  case Nil
  then show ?case by simp
next
  case (Cons nodeId rest)
  show ?case
  proof (cases "nodeId \<notin> visited st")
    case True
    from Cons.prems have "nodeId \<in> U" by simp
    from dfs_returns [OF Cons.prems(1) Cons.prems(2) this True Cons.prems(4)]
    obtain st1 where st1: "dfs k adjList nodeId [] [] st = Some st1"
      and v: "visited st \<subseteq> visited st1" by blast
    have "U - visited st1 \<subseteq> U - visited st" using v by auto
    then have "card (U - visited st1) \<le> card (U - visited st)"
      using Cons.prems(1) by (intro card_mono) auto
    with Cons.prems(4) have "card (U - visited st1) \<le> k" by simp
    from Cons.IH [OF Cons.prems(1) Cons.prems(2) _ this] Cons.prems(3)
    obtain st' where "detectCycles_loop k adjList rest st1 = Some st'" by auto
    with True st1 show ?thesis by simp
  next
    case False
    from Cons.IH [OF Cons.prems(1) Cons.prems(2) _ Cons.prems(4)] Cons.prems(3) False
    show ?thesis by auto
  qed
qed

text \<open>Every neighbour in the adjacency list is the target of a circular edge of the graph.\<close>

lemma buildAdjacencyList_edges:
  "buildAdjacencyList graph x = Some ns \<Longrightarrow> nb \<in> set ns \<Longrightarrow>
     \<exists>e \<in> set (g_edges graph). e_refType e = ''circular'' \<and> e_source e = x \<and> e_target e = nb_target nb"
proof -
  let ?step = "\<lambda>e adj.
              if e_refType e = ''circular'' then
                (case adj (e_source e) of
                   Some ns \<Rightarrow> adj(e_source e \<mapsto> ns @ [\<lparr> nb_target = e_target e, nb_edgeId = e_id e \<rparr>])
                 | None \<Rightarrow> adj)
              else adj"
  have inv: "\<forall>x ns nb. fold ?step es adj x = Some ns \<longrightarrow> nb \<in> set ns \<longrightarrow>
       (\<exists>e \<in> E \<union> set es. e_refType e = ''circular'' \<and> e_source e = x \<and> e_target e = nb_target nb)"
    if "\<forall>x ns nb. adj x = Some ns \<longrightarrow> nb \<in> set ns \<longrightarrow>
       (\<exists>e \<in> E. e_refType e = ''circular'' \<and> e_source e = x \<and> e_target e = nb_target nb)"
    for es :: "gedge list" and adj E
    using that
  proof (induction es arbitrary: adj E)
    case Nil
    then show ?case by simp
  next
    case (Cons e es)
    have "\<forall>x ns nb. ?step e adj x = Some ns \<longrightarrow> nb \<in> set ns \<longrightarrow>
       (\<exists>e' \<in> insert e E. e_refType e' = ''circular'' \<and> e_source e' = x \<and> e_target e' = nb_target nb)"
      using Cons.prems by (auto split: option.splits if_splits)
    from Cons.IH [OF this] show ?case by simp
  qed
  have init: "\<forall>x ns. fold (\<lambda>n adj. adj(n_id n \<mapsto> [])) nodes adj x = Some ns \<longrightarrow> ns = []"
    if "\<forall>x ns. adj x = Some ns \<longrightarrow> ns = []"
    for nodes :: "gnode list" and adj :: "string \<rightharpoonup> neighbor list"
    using that
  proof (induction nodes arbitrary: adj)
    case Nil
    then show ?case by simp
  next
    case (Cons a nodes)
    have "\<forall>x ns. (adj(n_id a \<mapsto> [])) x = Some ns \<longrightarrow> ns = []"
      using Cons.prems by auto
    from Cons.IH [OF this] show ?case by simp
  qed
  have "\<forall>x ns nb. fold (\<lambda>n adj. adj(n_id n \<mapsto> [])) (g_nodes graph)
            (Map.empty :: string \<rightharpoonup> neighbor list) x = Some ns
          \<longrightarrow> nb \<in> set ns \<longrightarrow>
       (\<exists>e \<in> {}. e_refType e = ''circular'' \<and> e_source e = x \<and> e_target e = nb_target nb)"
  proof -
    have "\<forall>x ns. fold (\<lambda>n adj. adj(n_id n \<mapsto> [])) (g_nodes graph)
              (Map.empty :: string \<rightharpoonup> neighbor list) x = Some ns \<longrightarrow> ns = []"
      by (rule init) simp
    then show ?thesis by (metis empty_iff list.set(1))
  qed
  from inv [OF this, of "g_edges graph"] show
    "buildAdjacencyList graph x = Some ns \<Longrightarrow> nb \<in> set ns \<Longrightarrow>
     \<exists>e \<in> set (g_edges graph). e_refType e = ''circular'' \<and> e_source e = x \<and> e_target e = nb_target nb"
    by (simp add: buildAdjacencyList_def Let_def)
qed

text \<open>\<open>detectCycles\<close> returns on every graph: the bound on the recursion is never reached.\<close>

lemma detectCycles_returns: "\<exists>result. detectCycles graph = Some result"
proof -
  let ?U = "n_id ` set (g_nodes graph) \<union> e_target ` set (g_edges graph)"
  let ?st0 = "\<lparr> visited = {}, recursionStack = {}, cycles = [], nodesInCycles = {}, edgesInCycles = {} \<rparr>"
  have f: "finite ?U" by simp
  have cl: "\<forall>x ns. buildAdjacencyList graph x = Some ns \<longrightarrow> nb_target ` set ns \<subseteq> ?U"
  proof (intro allI impI subsetI)
    fix x ns t
    assume a: "buildAdjacencyList graph x = Some ns" and "t \<in> nb_target ` set ns"
    then obtain nb where nb: "nb \<in> set ns" "t = nb_target nb" by auto
    from buildAdjacencyList_edges [OF a nb(1)] obtain e
      where e: "e \<in> set (g_edges graph)" "e_target e = nb_target nb" by auto
    then have "nb_target nb \<in> e_target ` set (g_edges graph)" by (metis imageI)
    with nb(2) show "t \<in> ?U" by simp
  qed
  have i: "set (map n_id (g_nodes graph)) \<subseteq> ?U" by auto
  have "card ?U \<le> card (n_id ` set (g_nodes graph)) + card (e_target ` set (g_edges graph))"
    by (rule card_Un_le)
  also have "\<dots> \<le> length (g_nodes graph) + length (g_edges graph)"
    by (meson add_mono card_image_le card_length le_trans List.finite_set)
  finally have "card (?U - visited ?st0) \<le> Suc (length (g_nodes graph) + length (g_edges graph))"
    by simp
  from detectCycles_loop_returns [OF f cl i this] show ?thesis
    by (simp add: detectCycles_def)
qed


lemma indexOf_Some: "indexOf xs x = Some i \<Longrightarrow> i < length xs \<and> xs ! i = x"
proof (induction xs arbitrary: i)
  case Nil
  then show ?case by simp
next
  case (Cons y ys)
  show ?case
  proof (cases "y = x")
    case True
    with Cons.prems show ?thesis by simp
  next
    case False
    with Cons.prems obtain j where j: "indexOf ys x = Some j" "i = Suc j" by auto
    from Cons.IH [OF j(1)] j(2) show ?thesis by simp
  qed
qed

text \<open>
  Every cycle that \<open>recordCycle\<close> adds is a closed path of the adjacency list, when the
  current path is a path of the adjacency list and the closing edge leaves its last node.
\<close>

lemma recordCycle_closed:
  assumes "path \<noteq> []" and "successively (adjacent adjList) path"
    and "adjacent adjList (last path) (nb_target nb)"
    and "\<forall>c \<in> set (cycles st). cyc_nodes c \<noteq> [] \<and> successively (adjacent adjList) (cyc_nodes c)
            \<and> adjacent adjList (last (cyc_nodes c)) (hd (cyc_nodes c))"
  shows "\<forall>c \<in> set (cycles (recordCycle path edgePath nb st)).
            cyc_nodes c \<noteq> [] \<and> successively (adjacent adjList) (cyc_nodes c)
            \<and> adjacent adjList (last (cyc_nodes c)) (hd (cyc_nodes c))"
proof (cases "indexOf path (nb_target nb)")
  case None
  with assms(4) show ?thesis by (simp add: recordCycle_def)
next
  case (Some i)
  then have i: "i < length path" "path ! i = nb_target nb" using indexOf_Some by blast+
  have "successively (adjacent adjList) (take i path @ drop i path)" using assms(2) by simp
  then have s: "successively (adjacent adjList) (drop i path)"
    unfolding successively_append_iff by blast
  have n: "drop i path \<noteq> []" using i(1) by simp
  have l: "last (drop i path) = last path" using i(1) by simp
  have h: "hd (drop i path) = nb_target nb" using i by (simp add: hd_drop_conv_nth)
  from Some assms(3) assms(4) s n l h show ?thesis
    by (auto simp: recordCycle_def Let_def)
qed

lemma dfs_closed:
  "dfs k adjList nodeId path edgePath st = Some st' \<Longrightarrow>
     successively (adjacent adjList) (path @ [nodeId]) \<Longrightarrow>
     (\<forall>c \<in> set (cycles st). cyc_nodes c \<noteq> [] \<and> successively (adjacent adjList) (cyc_nodes c)
            \<and> adjacent adjList (last (cyc_nodes c)) (hd (cyc_nodes c))) \<Longrightarrow>
     (\<forall>c \<in> set (cycles st'). cyc_nodes c \<noteq> [] \<and> successively (adjacent adjList) (cyc_nodes c)
            \<and> adjacent adjList (last (cyc_nodes c)) (hd (cyc_nodes c)))"
  and dfs_neighbors_closed:
  "dfs_neighbors k adjList nbs path edgePath st = Some st' \<Longrightarrow>
     path \<noteq> [] \<Longrightarrow> successively (adjacent adjList) path \<Longrightarrow>
     (\<forall>nb \<in> set nbs. adjacent adjList (last path) (nb_target nb)) \<Longrightarrow>
     (\<forall>c \<in> set (cycles st). cyc_nodes c \<noteq> [] \<and> successively (adjacent adjList) (cyc_nodes c)
            \<and> adjacent adjList (last (cyc_nodes c)) (hd (cyc_nodes c))) \<Longrightarrow>
     (\<forall>c \<in> set (cycles st'). cyc_nodes c \<noteq> [] \<and> successively (adjacent adjList) (cyc_nodes c)
            \<and> adjacent adjList (last (cyc_nodes c)) (hd (cyc_nodes c)))"
proof (induction k adjList nodeId path edgePath st and k adjList nbs path edgePath st
    arbitrary: st' and st' rule: dfs_dfs_neighbors.induct)
  case (1 adjList nodeId path edgePath st)
  then show ?case by simp
next
  case (2 k adjList nodeId path edgePath st)
  let ?st1 = "st\<lparr>visited := insert nodeId (visited st),
                  recursionStack := insert nodeId (recursionStack st)\<rparr>"
  let ?nbs = "case adjList nodeId of None \<Rightarrow> [] | Some ns \<Rightarrow> ns"
  from "2.prems"(1) obtain st2
    where st2: "dfs_neighbors k adjList ?nbs (path @ [nodeId]) edgePath ?st1 = Some st2"
      and st': "st' = st2\<lparr>recursionStack := recursionStack st2 - {nodeId}\<rparr>"
    by (auto simp: Let_def split: option.splits)
  have a: "\<forall>nb \<in> set ?nbs. adjacent adjList (last (path @ [nodeId])) (nb_target nb)"
    by (cases "adjList nodeId") (auto simp: adjacent_def list_ex_iff)
  have c: "\<forall>c \<in> set (cycles ?st1). cyc_nodes c \<noteq> [] \<and> successively (adjacent adjList) (cyc_nodes c)
            \<and> adjacent adjList (last (cyc_nodes c)) (hd (cyc_nodes c))"
    using "2.prems"(3) by simp
  have "path @ [nodeId] \<noteq> []" by simp
  from "2.IH" [OF refl refl refl st2 this "2.prems"(2) a c] st' show ?case by simp
next
  case (3 k adjList path edgePath st)
  then show ?case by simp
next
  case (4 k adjList nb nbs path edgePath st)
  from "4.prems"(4) have an: "adjacent adjList (last path) (nb_target nb)"
    and as: "\<forall>nb \<in> set nbs. adjacent adjList (last path) (nb_target nb)" by simp_all
  show ?case
  proof (cases "nb_target nb \<in> recursionStack st")
    case True
    with "4.prems"(1) have r: "dfs_neighbors k adjList nbs path edgePath (recordCycle path edgePath nb st) = Some st'"
      by simp
    have c: "\<forall>c \<in> set (cycles (recordCycle path edgePath nb st)).
            cyc_nodes c \<noteq> [] \<and> successively (adjacent adjList) (cyc_nodes c)
            \<and> adjacent adjList (last (cyc_nodes c)) (hd (cyc_nodes c))"
      using "4.prems"(2) "4.prems"(3) an "4.prems"(5) by (rule recordCycle_closed)
    from "4.IH"(1) [OF True r "4.prems"(2) "4.prems"(3) as c] show ?thesis .
  next
    case False
    show ?thesis
    proof (cases "nb_target nb \<notin> visited st")
      case True
      with False "4.prems"(1) obtain st1
        where st1: "dfs k adjList (nb_target nb) path (edgePath @ [nb_edgeId nb]) st = Some st1"
          and r: "dfs_neighbors k adjList nbs path edgePath st1 = Some st'"
        by (auto split: option.splits)
      have p: "successively (adjacent adjList) (path @ [nb_target nb])"
        using "4.prems"(2) "4.prems"(3) an by (simp add: successively_append_iff)
      from "4.IH"(2) [OF False True st1 p "4.prems"(5)]
      have c: "\<forall>c \<in> set (cycles st1). cyc_nodes c \<noteq> [] \<and> successively (adjacent adjList) (cyc_nodes c)
            \<and> adjacent adjList (last (cyc_nodes c)) (hd (cyc_nodes c))" .
      from "4.IH"(3) [OF False True st1 r "4.prems"(2) "4.prems"(3) as c] show ?thesis .
    next
      case nv: False
      with False "4.prems"(1) have r: "dfs_neighbors k adjList nbs path edgePath st = Some st'" by simp
      from "4.IH"(4) [OF False nv r "4.prems"(2) "4.prems"(3) as "4.prems"(5)] show ?thesis .
    qed
  qed
qed

lemma detectCycles_loop_closed:
  "detectCycles_loop k adjList ids st = Some st' \<Longrightarrow>
     (\<forall>c \<in> set (cycles st). cyc_nodes c \<noteq> [] \<and> successively (adjacent adjList) (cyc_nodes c)
            \<and> adjacent adjList (last (cyc_nodes c)) (hd (cyc_nodes c))) \<Longrightarrow>
     (\<forall>c \<in> set (cycles st'). cyc_nodes c \<noteq> [] \<and> successively (adjacent adjList) (cyc_nodes c)
            \<and> adjacent adjList (last (cyc_nodes c)) (hd (cyc_nodes c)))"
proof (induction ids arbitrary: st)
  case Nil
  then show ?case by simp
next
  case (Cons nodeId rest)
  show ?case
  proof (cases "nodeId \<notin> visited st")
    case True
    with Cons.prems(1) obtain st1 where st1: "dfs k adjList nodeId [] [] st = Some st1"
      and r: "detectCycles_loop k adjList rest st1 = Some st'"
      by (auto split: option.splits)
    have "successively (adjacent adjList) ([] @ [nodeId])" by simp
    from dfs_closed [OF st1 this Cons.prems(2)] Cons.IH [OF r] show ?thesis by blast
  next
    case False
    with Cons.prems(1) have "detectCycles_loop k adjList rest st = Some st'" by simp
    from Cons.IH [OF this Cons.prems(2)] show ?thesis .
  qed
qed

lemma walk_iff:
  "walk graph ns first =
     (ns \<noteq> [] \<and> successively (circularEdge graph) ns \<and> circularEdge graph (last ns) first)"
  by (induction graph ns first rule: walk.induct) auto

lemma adjacent_circularEdge:
  "adjacent (buildAdjacencyList graph) a b \<Longrightarrow> circularEdge graph a b"
proof -
  assume "adjacent (buildAdjacencyList graph) a b"
  then obtain ns nb where "buildAdjacencyList graph a = Some ns" "nb \<in> set ns" "nb_target nb = b"
    by (auto simp: adjacent_def list_ex_iff split: option.splits)
  from buildAdjacencyList_edges [OF this(1) this(2)] this(3) show ?thesis
    by (auto simp: circularEdge_def list_ex_iff)
qed

text \<open>
  The half of C1 that holds: every cycle that \<open>detectCycles\<close> returns is a closed path
  of circular-type edges of the graph.
\<close>

lemma detectCycles_sound:
  assumes "detectCycles graph = Some result" and "c \<in> set (cycles result)"
  shows "closedPath graph (cyc_nodes c)"
proof -
  let ?adj = "buildAdjacencyList graph"
  from assms(1) have "\<forall>c \<in> set (cycles result). cyc_nodes c \<noteq> []
      \<and> successively (adjacent ?adj) (cyc_nodes c)
      \<and> adjacent ?adj (last (cyc_nodes c)) (hd (cyc_nodes c))"
    unfolding detectCycles_def by (rule detectCycles_loop_closed) simp
  with assms(2) have n: "cyc_nodes c \<noteq> []" and s: "successively (adjacent ?adj) (cyc_nodes c)"
    and l: "adjacent ?adj (last (cyc_nodes c)) (hd (cyc_nodes c))" by blast+
  from s have "successively (circularEdge graph) (cyc_nodes c)"
    by (rule successively_mono) (rule adjacent_circularEdge)
  moreover from l have "circularEdge graph (last (cyc_nodes c)) (hd (cyc_nodes c))"
    by (rule adjacent_circularEdge)
  ultimately show ?thesis
    using n by (cases "cyc_nodes c") (simp_all add: closedPath_def walk_iff)
qed


text \<open>
  C1 fails on the code. In the graph built from the three circulars, \<open>A, C, B\<close> is a
  closed path of circular-type edges, yet \<open>detectCycles\<close> returns the single cycle
  \<open>A, B\<close>: when the search reaches \<open>C\<close>, its neighbour \<open>B\<close> is already visited and no
  longer on the recursion stack, so the edge from \<open>C\<close> to \<open>B\<close> is skipped, and \<open>C\<close> is
  not marked as a node in a cycle.
\<close>

theorem detectCycles_misses_cycle:
  "\<not> isl (buildGraph noRandom loaded_two_cycles)
   \<and> map n_id (g_nodes graph_two_cycles) = [''A'', ''B'', ''C'']
   \<and> map (\<lambda>e. (e_source e, e_target e, e_refType e)) (g_edges graph_two_cycles)
       = [(''A'', ''B'', ''circular''), (''A'', ''C'', ''circular''),
          (''B'', ''A'', ''circular''), (''C'', ''B'', ''circular'')]
   \<and> closedPath graph_two_cycles [''A'', ''B'']
   \<and> closedPath graph_two_cycles [''A'', ''C'', ''B'']
   \<and> map_option (\<lambda>r. map cyc_nodes (cycles r)) (detectCycles graph_two_cycles) = Some [[''A'', ''B'']]
   \<and> map_option (\<lambda>r. reported r [''A'', ''C'', ''B'']) (detectCycles graph_two_cycles) = Some False
   \<and> map_option (\<lambda>r. ''C'' \<in> nodesInCycles r) (detectCycles graph_two_cycles) = Some False"
  by code_simp

end
